theory Spec2Isabelle
  imports Main "HOL-Library.Multiset"
begin

section \<open>JavaScript values used by the source-map core\<close>

text \<open>
  The bundle \<open>src/unnamed/part_000\<close> holds the modules of the source-list-map engine
  (\<open>CodeNode\<close>, \<open>SingleLineNode\<close>, \<open>SourceNode\<close>, \<open>MappingsContext\<close>,
  \<open>SourceListMap\<close>, \<open>base64-vlq\<close>, \<open>fromStringWithSourceMap\<close>) and of the source
  wrappers (\<open>ReplaceSource\<close> among them). Strings are lists of characters (one
  \<open>char\<close> per code unit), JavaScript numbers that hold integers are \<open>int\<close>, and the
  32-bit conversions of the bitwise operators are written out.
\<close>

abbreviation NL :: char where
  "NL \<equiv> CHR 0x0A"

text \<open>A value that may be \<open>undefined\<close>, \<open>null\<close> or a string (source names and
  original source texts).\<close>

datatype jsval = Undefined | Null | Str string

text \<open>Every \<open>throw\<close> of the modelled functions.\<close>

datatype error =
    MustBeBetween0And63 int     \<comment> \<open>\<open>TypeError("Must be between 0 and 63: ")\<close>\<close>
  | NotAValidBase64Digit char   \<comment> \<open>\<open>TypeError("Not a valid base 64 digit: ")\<close>\<close>
  | ExpectedMoreDigits          \<comment> \<open>\<open>Error("Expected more digits in base 64 VLQ value.")\<close>\<close>
  | InvalidArrayLength int      \<comment> \<open>\<open>RangeError("Invalid array length")\<close>\<close>
  | CannotMapGeneratedCode      \<comment> \<open>\<open>Error("Cannot map generated code on a SourceMap. \<dots>")\<close>\<close>

subsection \<open>32-bit operators\<close>

text \<open>
  \<open>ToInt32\<close> and \<open>ToUint32\<close> of an integer, and the operators \<open>&\<close>, \<open>|\<close>,
  \<open><<\<close>, \<open>>>\<close>, \<open>>>>\<close> built on them; the shift count is taken modulo 32.
\<close>

definition ToInt32 :: "int \<Rightarrow> int" where
  "ToInt32 x = signed_take_bit 31 x"

definition ToUint32 :: "int \<Rightarrow> int" where
  "ToUint32 x = take_bit 32 x"

definition js_and :: "int \<Rightarrow> int \<Rightarrow> int" where
  "js_and a b = ToInt32 (and (ToInt32 a) (ToInt32 b))"

definition js_or :: "int \<Rightarrow> int \<Rightarrow> int" where
  "js_or a b = ToInt32 (or (ToInt32 a) (ToInt32 b))"

definition js_shl :: "int \<Rightarrow> int \<Rightarrow> int" where
  "js_shl a k = ToInt32 (push_bit (nat (ToUint32 k mod 32)) (ToInt32 a))"

definition js_shr :: "int \<Rightarrow> int \<Rightarrow> int" where
  "js_shr a k = drop_bit (nat (ToUint32 k mod 32)) (ToInt32 a)"

definition js_ushr :: "int \<Rightarrow> int \<Rightarrow> int" where
  "js_ushr a k = drop_bit (nat (ToUint32 k mod 32)) (ToUint32 a)"

section \<open>Line utilities (module 437)\<close>

text \<open>\<open>getNumberOfLines\<close>: the loop counts one for every \<open>indexOf("\n", \<dots>)\<close> hit,
  that is the newline characters of the text.\<close>

fun getNumberOfLines :: "string \<Rightarrow> int" where
  "getNumberOfLines [] = 0"
| "getNumberOfLines (c # cs) = (if c = NL then 1 else 0) + getNumberOfLines cs"

text \<open>\<open>getUnfinishedLine\<close>: the length when there is no newline, otherwise
  \<open>length - lastIndexOf("\n") - 1\<close>, the characters after the last newline.\<close>

definition getUnfinishedLine :: "string \<Rightarrow> int" where
  "getUnfinishedLine e = int (length (takeWhile (\<lambda>c. c \<noteq> NL) (rev e)))"

section \<open>Base64 VLQ (module 207)\<close>

definition base64_alphabet :: string where
  "base64_alphabet = ''ABCDEFGHIJKLMNOPQRSTUVWXYZabcdefghijklmnopqrstuvwxyz0123456789+/''"

definition base64_encode :: "int \<Rightarrow> error + char" where
  "base64_encode e =
     (if 0 \<le> e \<and> e < 64 then Inr (base64_alphabet ! nat e) else Inl (MustBeBetween0And63 e))"

fun index_of :: "char \<Rightarrow> string \<Rightarrow> int \<Rightarrow> int option" where
  "index_of c [] i = None"
| "index_of c (x # xs) i = (if c = x then Some i else index_of c xs (i + 1))"

definition base64_decode :: "char \<Rightarrow> error + int" where
  "base64_decode e =
     (case index_of e base64_alphabet 0 of
        Some v \<Rightarrow> Inr v
      | None \<Rightarrow> Inl (NotAValidBase64Digit e))"

definition VLQ_BASE_SHIFT :: int where "VLQ_BASE_SHIFT = 5"
definition VLQ_BASE :: int where "VLQ_BASE = js_shl 1 VLQ_BASE_SHIFT"
definition VLQ_BASE_MASK :: int where "VLQ_BASE_MASK = VLQ_BASE - 1"
definition VLQ_CONTINUATION_BIT :: int where "VLQ_CONTINUATION_BIT = VLQ_BASE"

definition toVLQSigned :: "int \<Rightarrow> int" where
  "toVLQSigned e = (if e < 0 then js_shl (- e) 1 + 1 else js_shl e 1 + 0)"

definition fromVLQSigned :: "int \<Rightarrow> int" where
  "fromVLQSigned e =
     (let t = (js_and e 1 = 1); s = js_shr e 1 in if t then - s else s)"

text \<open>
  The \<open>do \<dots> while (n > 0)\<close> loop of \<open>base64VLQ_encode\<close>; \<open>n\<close> is the value
  still to be written and \<open>t\<close> the digits written so far. After \<open>n >>>= 5\<close> the value
  is an unsigned 32-bit number that shrinks with every round.
\<close>

function base64VLQ_encode_loop :: "int \<Rightarrow> string \<Rightarrow> error + string" where
  "base64VLQ_encode_loop n t =
     (let s = js_and n VLQ_BASE_MASK;
          n' = js_ushr n VLQ_BASE_SHIFT;
          s' = (if n' > 0 then js_or s VLQ_CONTINUATION_BIT else s)
      in case base64_encode s' of
           Inl err \<Rightarrow> Inl err
         | Inr d \<Rightarrow> if n' > 0 then base64VLQ_encode_loop n' (t @ [d]) else Inr (t @ [d]))"
  by pat_completeness auto
termination
proof (relation "measure (\<lambda>(n, t). nat (ToUint32 n))")
  show "wf (measure (\<lambda>(n, t). nat (ToUint32 n)))" by simp
next
  fix n :: int and t :: string and x xa xb xc
  assume x: "x = js_and n VLQ_BASE_MASK" and xa: "xa = js_ushr n VLQ_BASE_SHIFT"
    and pos: "0 < xa"
  have eq: "xa = ToUint32 n div 32"
    unfolding xa js_ushr_def VLQ_BASE_SHIFT_def ToUint32_def
    by (simp add: drop_bit_eq_div)
  have nonneg: "0 \<le> ToUint32 n"
    by (simp add: ToUint32_def)
  have "ToUint32 xa = xa"
    unfolding ToUint32_def
  proof (rule take_bit_int_eq_self)
    show "0 \<le> xa" using pos by simp
    have "ToUint32 n < 2 ^ 32"
      unfolding ToUint32_def by (rule take_bit_int_less_exp)
    then show "xa < 2 ^ 32" using eq nonneg by simp
  qed
  moreover have "xa < ToUint32 n"
    using eq pos nonneg by simp
  ultimately show "((xa, t @ [xc]), (n, t)) \<in> measure (\<lambda>(n, t). nat (ToUint32 n))"
    using pos by simp
qed

definition base64VLQ_encode :: "int \<Rightarrow> error + string" where
  "base64VLQ_encode e = base64VLQ_encode_loop (toVLQSigned e) []"

text \<open>
  The \<open>do \<dots> while (h)\<close> loop of \<open>base64VLQ_decode\<close>. The source walks the string
  with the index \<open>s\<close> and ends with \<open>rest = e.slice(s)\<close>; here the loop consumes the
  characters and the remainder is the rest. \<open>u\<close> is the accumulated value, \<open>c\<close>
  the shift. The result is the pair \<open>(value, rest)\<close> written into the cursor object.
  The sum \<open>u + (a << c)\<close> is a sum of JavaScript numbers, taken here as the sum of
  integers, which it is as long as it stays below \<open>2^53\<close>.
\<close>

fun base64VLQ_decode_loop :: "string \<Rightarrow> int \<Rightarrow> int \<Rightarrow> error + (int \<times> string)" where
  "base64VLQ_decode_loop [] u c = Inl ExpectedMoreDigits"
| "base64VLQ_decode_loop (ch # rest) u c =
     (case base64_decode ch of
        Inl err \<Rightarrow> Inl err
      | Inr a \<Rightarrow>
          (let h = (js_and a VLQ_CONTINUATION_BIT \<noteq> 0);
               a' = js_and a VLQ_BASE_MASK;
               u' = u + js_shl a' c;
               c' = c + VLQ_BASE_SHIFT
           in if h then base64VLQ_decode_loop rest u' c'
              else Inr (fromVLQSigned u', rest)))"

definition base64VLQ_decode :: "string \<Rightarrow> error + (int \<times> string)" where
  "base64VLQ_decode e = base64VLQ_decode_loop e 0 0"


section \<open>Fragment nodes (modules 939, 57 and 478)\<close>

text \<open>
  \<open>SingleLineNode\<close> and \<open>SourceNode\<close> share the fields \<open>generatedCode\<close>,
  \<open>source\<close>, \<open>originalSource\<close>, \<open>_numberOfLines\<close> and \<open>_endsWithNewLine\<close>; the
  first adds \<open>line\<close>, the second \<open>startingLine\<close>. A \<open>CodeNode\<close> holds only its
  \<open>generatedCode\<close>.
\<close>

record MappedNode =
  generatedCode :: string
  source :: jsval
  originalSource :: jsval
  numberOfLines :: int
  endsWithNewLine :: bool

record SingleLineNode = MappedNode +
  line :: int

record SourceNode = MappedNode +
  startingLine :: int

datatype node =
    CodeNode string
  | SingleLine SingleLineNode
  | Source SourceNode

text \<open>\<open>e[e.length-1]==="\n"\<close>: on the empty string the read is \<open>undefined\<close> and the
  comparison false.\<close>

definition lastIsNewline :: "string \<Rightarrow> bool" where
  "lastIsNewline e = (e \<noteq> [] \<and> last e = NL)"

text \<open>The constructors. \<open>n||1\<close> replaces a line number 0 (and a missing one, passed
  here as 0) by 1.\<close>

definition new_SingleLineNode :: "string \<Rightarrow> jsval \<Rightarrow> jsval \<Rightarrow> int \<Rightarrow> SingleLineNode" where
  "new_SingleLineNode e t s n =
     \<lparr>generatedCode = e, source = t, originalSource = s,
      numberOfLines = getNumberOfLines e, endsWithNewLine = lastIsNewline e,
      line = (if n = 0 then 1 else n)\<rparr>"

definition new_SourceNode :: "string \<Rightarrow> jsval \<Rightarrow> jsval \<Rightarrow> int \<Rightarrow> SourceNode" where
  "new_SourceNode e t s n =
     \<lparr>generatedCode = e, source = t, originalSource = s,
      numberOfLines = getNumberOfLines e, endsWithNewLine = lastIsNewline e,
      startingLine = (if n = 0 then 1 else n)\<rparr>"

fun getGeneratedCode :: "node \<Rightarrow> string" where
  "getGeneratedCode (CodeNode c) = c"
| "getGeneratedCode (SingleLine n) = generatedCode n"
| "getGeneratedCode (Source n) = generatedCode n"

text \<open>\<open>SourceNode.addGeneratedCode\<close>.\<close>

definition addGeneratedCode :: "SourceNode \<Rightarrow> string \<Rightarrow> SourceNode" where
  "addGeneratedCode this e =
     this\<lparr>generatedCode := generatedCode this @ e,
          numberOfLines := numberOfLines this + getNumberOfLines e,
          endsWithNewLine := lastIsNewline e\<rparr>"

subsection \<open>Merging\<close>

text \<open>
  \<open>merge\<close> answers \<open>false\<close> (here \<open>None\<close>) or the merged node: the receiver
  after its update, or a new \<open>SourceNode\<close>.
\<close>

definition SingleLineNode_mergeSingleLineNode :: "SingleLineNode \<Rightarrow> SingleLineNode \<Rightarrow> node option" where
  "SingleLineNode_mergeSingleLineNode this e =
     (if source this = source e \<and> originalSource this = originalSource e then
        if line this = line e then
          Some (SingleLine (this\<lparr>generatedCode := generatedCode this @ generatedCode e,
                                 numberOfLines := numberOfLines this + numberOfLines e,
                                 endsWithNewLine := endsWithNewLine e\<rparr>))
        else if line this + 1 = line e \<and> endsWithNewLine this \<and> numberOfLines this = 1
                \<and> numberOfLines e \<le> 1 then
          Some (Source (new_SourceNode (generatedCode this @ generatedCode e) (source this)
                          (originalSource this) (line this)))
        else None
      else None)"

definition addSingleLineNode :: "SourceNode \<Rightarrow> SingleLineNode \<Rightarrow> SourceNode" where
  "addSingleLineNode this e =
     this\<lparr>generatedCode := generatedCode this @ generatedCode e,
          numberOfLines := numberOfLines this + numberOfLines e,
          endsWithNewLine := endsWithNewLine e\<rparr>"

definition mergeSourceNode :: "SourceNode \<Rightarrow> SourceNode \<Rightarrow> SourceNode option" where
  "mergeSourceNode this e =
     (if source this = source e \<and> endsWithNewLine this
         \<and> startingLine this + numberOfLines this = startingLine e then
        Some (this\<lparr>generatedCode := generatedCode this @ generatedCode e,
                   numberOfLines := numberOfLines this + numberOfLines e,
                   endsWithNewLine := endsWithNewLine e\<rparr>)
      else None)"

definition mergeSingleLineNode :: "SourceNode \<Rightarrow> SingleLineNode \<Rightarrow> SourceNode option" where
  "mergeSingleLineNode this e =
     (if source this = source e \<and> endsWithNewLine this
         \<and> startingLine this + numberOfLines this = line e \<and> numberOfLines e \<le> 1 then
        Some (addSingleLineNode this e)
      else None)"

fun merge :: "node \<Rightarrow> node \<Rightarrow> node option" where
  "merge (CodeNode c) (CodeNode c') = Some (CodeNode (c @ c'))"
| "merge (CodeNode c) _ = None"
| "merge (SingleLine this) (SingleLine e) = SingleLineNode_mergeSingleLineNode this e"
| "merge (SingleLine this) _ = None"
| "merge (Source this) (Source e) = map_option Source (mergeSourceNode this e)"
| "merge (Source this) (SingleLine e) = map_option Source (mergeSingleLineNode this e)"
| "merge (Source this) _ = None"

subsection \<open>Normalizing and mapping\<close>

text \<open>
  \<open>SourceNode.getNormalizedNodes\<close>: the loop cuts the text after every newline
  (\<open>indexOf("\n", n) + 1\<close>, or the end of the text) and makes a \<open>SingleLineNode\<close> of
  each piece, the line number going up by one. Here the text is scanned character by
  character; \<open>cur\<close> holds the piece read so far. The other two kinds return
  themselves.
\<close>

fun normalizeLoop :: "string \<Rightarrow> string \<Rightarrow> jsval \<Rightarrow> jsval \<Rightarrow> int \<Rightarrow> node list" where
  "normalizeLoop [] cur src orig t =
     (if cur = [] then [] else [SingleLine (new_SingleLineNode cur src orig t)])"
| "normalizeLoop (c # cs) cur src orig t =
     (if c = NL
      then SingleLine (new_SingleLineNode (cur @ [c]) src orig t)
             # normalizeLoop cs [] src orig (t + 1)
      else normalizeLoop cs (cur @ [c]) src orig t)"

fun getNormalizedNodes :: "node \<Rightarrow> node list" where
  "getNormalizedNodes (CodeNode c) = [CodeNode c]"
| "getNormalizedNodes (SingleLine n) = [SingleLine n]"
| "getNormalizedNodes (Source n) =
     normalizeLoop (generatedCode n) [] (source n) (originalSource n) (startingLine n)"

text \<open>\<open>mapGeneratedCode(e)\<close> of a node: a new node of the same kind around the mapped
  text; a \<open>SourceNode\<close> throws.\<close>

fun node_mapGeneratedCode :: "(string \<Rightarrow> string) \<Rightarrow> node \<Rightarrow> error + node" where
  "node_mapGeneratedCode f (CodeNode c) = Inr (CodeNode (f c))"
| "node_mapGeneratedCode f (SingleLine n) =
     Inr (SingleLine (new_SingleLineNode (f (generatedCode n)) (source n) (originalSource n)
                        (line n)))"
| "node_mapGeneratedCode f (Source n) = Inl CannotMapGeneratedCode"

text \<open>
  \<open>SourceListMap.mapGeneratedCode\<close>: the normalized nodes are mapped one by one and
  each is merged into the last node of the result \<open>s\<close> or, when \<open>merge\<close> answers
  \<open>false\<close>, pushed.
\<close>

definition pushOrMerge :: "node list \<Rightarrow> node \<Rightarrow> node list" where
  "pushOrMerge s t =
     (if s = [] then [t]
      else (case merge (last s) t of
              Some n \<Rightarrow> butlast s @ [n]
            | None \<Rightarrow> s @ [t]))"

fun mapMergeLoop :: "(string \<Rightarrow> string) \<Rightarrow> node list \<Rightarrow> node list \<Rightarrow> error + node list" where
  "mapMergeLoop f [] s = Inr s"
| "mapMergeLoop f (t # ts) s =
     (case node_mapGeneratedCode f t of
        Inl err \<Rightarrow> Inl err
      | Inr t' \<Rightarrow> mapMergeLoop f ts (pushOrMerge s t'))"

definition mapGeneratedCode :: "node list \<Rightarrow> (string \<Rightarrow> string) \<Rightarrow> error + node list" where
  "mapGeneratedCode children f =
     mapMergeLoop f (concat (map getNormalizedNodes children)) []"

section \<open>The mappings context (module 300)\<close>

text \<open>
  The two \<open>Map\<close>s are kept in insertion order as association lists.
  \<open>unfinishedGeneratedLine\<close> starts as \<open>false\<close> (here \<open>None\<close>) and holds a number
  afterwards.
\<close>

record MappingsContext =
  sourcesIndices :: "(jsval \<times> int) list"
  sourcesContent :: "(jsval \<times> jsval) list"
  hasSourceContent :: bool
  currentOriginalLine :: int
  currentSource :: int
  unfinishedGeneratedLine :: "int option"

definition new_MappingsContext :: MappingsContext where
  "new_MappingsContext =
     \<lparr>sourcesIndices = [], sourcesContent = [], hasSourceContent = False,
      currentOriginalLine = 1, currentSource = 0, unfinishedGeneratedLine = None\<rparr>"

fun isString :: "jsval \<Rightarrow> bool" where
  "isString (Str s) = True"
| "isString _ = False"

definition ensureSource :: "MappingsContext \<Rightarrow> jsval \<Rightarrow> jsval \<Rightarrow> int \<times> MappingsContext" where
  "ensureSource this e t =
     (case map_of (sourcesIndices this) e of
        Some s \<Rightarrow> (s, this)
      | None \<Rightarrow>
          (let s = int (length (sourcesIndices this))
           in (s, this\<lparr>sourcesIndices := sourcesIndices this @ [(e, s)],
                       sourcesContent := sourcesContent this @ [(e, t)],
                       hasSourceContent := (if isString t then True else hasSourceContent this)\<rparr>)))"

definition getArrays :: "MappingsContext \<Rightarrow> jsval list \<times> jsval list" where
  "getArrays this = (map fst (sourcesContent this), map snd (sourcesContent this))"

subsection \<open>\<open>getMappings\<close>\<close>

text \<open>\<open>Array(t).join(u)\<close>: \<open>t - 1\<close> copies of \<open>u\<close> (none for \<open>t = 0\<close>); a negative
  length is a \<open>RangeError\<close>.\<close>

definition Array_join :: "int \<Rightarrow> string \<Rightarrow> error + string" where
  "Array_join t u = (if t < 0 then Inl (InvalidArrayLength t)
                     else Inr (concat (replicate (nat t - 1) u)))"

text \<open>A number is truthy unless it is 0; \<open>false + k\<close> is \<open>k\<close>.\<close>

definition truthy :: "int option \<Rightarrow> bool" where
  "truthy v = (case v of None \<Rightarrow> False | Some k \<Rightarrow> k \<noteq> 0)"

definition toNumber :: "int option \<Rightarrow> int" where
  "toNumber v = (case v of None \<Rightarrow> 0 | Some k \<Rightarrow> k)"

definition CodeNode_getMappings :: "string \<Rightarrow> MappingsContext \<Rightarrow> error + (string \<times> MappingsContext)" where
  "CodeNode_getMappings code e =
     (let t = getNumberOfLines code in
      case Array_join (t + 1) '';'' of
        Inl err \<Rightarrow> Inl err
      | Inr s \<Rightarrow>
          if t > 0 then
            (let e' = e\<lparr>unfinishedGeneratedLine := Some (getUnfinishedLine code)\<rparr>
             in if toNumber (unfinishedGeneratedLine e') > 0
                then Inr (s @ ''A'', e') else Inr (s, e'))
          else
            (let t0 = unfinishedGeneratedLine e;
                 e' = e\<lparr>unfinishedGeneratedLine := Some (toNumber t0 + getUnfinishedLine code)\<rparr>
             in if t0 = Some 0 \<and> toNumber (unfinishedGeneratedLine e') > 0
                then Inr (''A'', e') else Inr ([], e')))"

text \<open>
  The first segment of a mapped node, shared by both \<open>getMappings\<close>: \<open>"A"\<close> or
  \<open>","\<close> and the pending column, then the source delta, the line delta and \<open>"A"\<close>.
\<close>

definition firstSegment :: "MappingsContext \<Rightarrow> int \<Rightarrow> int \<Rightarrow> error + string" where
  "firstSegment e s ln =
     (case (if truthy (unfinishedGeneratedLine e)
            then (case base64VLQ_encode (toNumber (unfinishedGeneratedLine e)) of
                    Inl err \<Rightarrow> Inl err | Inr v \<Rightarrow> Inr ('','' @ v))
            else Inr ''A'') of
        Inl err \<Rightarrow> Inl err
      | Inr i \<Rightarrow>
          (case base64VLQ_encode (s - currentSource e) of
             Inl err \<Rightarrow> Inl err
           | Inr ds \<Rightarrow>
               (case base64VLQ_encode (ln - currentOriginalLine e) of
                  Inl err \<Rightarrow> Inl err
                | Inr dl \<Rightarrow> Inr (i @ ds @ dl @ ''A''))))"

definition SingleLineNode_getMappings ::
  "SingleLineNode \<Rightarrow> MappingsContext \<Rightarrow> error + (string \<times> MappingsContext)" where
  "SingleLineNode_getMappings this e =
     (if generatedCode this = [] then Inr ([], e)
      else
        (let t = numberOfLines this;
             (s, e1) = ensureSource e (source this) (originalSource this)
         in case firstSegment e1 s (line this) of
              Inl err \<Rightarrow> Inl err
            | Inr i \<Rightarrow>
                (let ul = getUnfinishedLine (generatedCode this);
                     e2 = e1\<lparr>currentSource := s, currentOriginalLine := line this,
                             unfinishedGeneratedLine := Some ul\<rparr>
                 in case Array_join t '';AAAA'' of
                      Inl err \<Rightarrow> Inl err
                    | Inr j \<Rightarrow>
                        if ul = 0 then Inr (i @ j @ '';'', e2)
                        else if t \<noteq> 0 then Inr (i @ j @ '';AAAA'', e2)
                        else Inr (i @ j, e2))))"

definition SourceNode_getMappings ::
  "SourceNode \<Rightarrow> MappingsContext \<Rightarrow> error + (string \<times> MappingsContext)" where
  "SourceNode_getMappings this e =
     (if generatedCode this = [] then Inr ([], e)
      else
        (let t = numberOfLines this;
             (s, e1) = ensureSource e (source this) (originalSource this)
         in case firstSegment e1 s (startingLine this) of
              Inl err \<Rightarrow> Inl err
            | Inr i \<Rightarrow>
                (let ul = getUnfinishedLine (generatedCode this);
                     e2 = e1\<lparr>currentSource := s,
                             currentOriginalLine := startingLine this + t - 1,
                             unfinishedGeneratedLine := Some ul\<rparr>
                 in case Array_join t '';AACA'' of
                      Inl err \<Rightarrow> Inl err
                    | Inr j \<Rightarrow>
                        if ul = 0 then Inr (i @ j @ '';'', e2)
                        else
                          (let e3 = e2\<lparr>currentOriginalLine := currentOriginalLine e2 + 1\<rparr>
                           in if t \<noteq> 0 then Inr (i @ j @ '';AACA'', e3)
                              else Inr (i @ j, e3)))))"

fun getMappings :: "node \<Rightarrow> MappingsContext \<Rightarrow> error + (string \<times> MappingsContext)" where
  "getMappings (CodeNode c) e = CodeNode_getMappings c e"
| "getMappings (SingleLine n) e = SingleLineNode_getMappings n e"
| "getMappings (Source n) e = SourceNode_getMappings n e"

section \<open>The fragment list (module 805)\<close>

text \<open>A \<open>SourceListMap\<close> is its \<open>children\<close> array.\<close>

definition toString :: "node list \<Rightarrow> string" where
  "toString children = concat (map getGeneratedCode children)"

text \<open>\<open>children.map(e => e.getMappings(t)).join("")\<close>, the context \<open>t\<close> passing
  from each child to the next.\<close>

fun mapGetMappings :: "node list \<Rightarrow> MappingsContext \<Rightarrow> error + (string \<times> MappingsContext)" where
  "mapGetMappings [] t = Inr ([], t)"
| "mapGetMappings (c # cs) t =
     (case getMappings c t of
        Inl err \<Rightarrow> Inl err
      | Inr (m, t') \<Rightarrow>
          (case mapGetMappings cs t' of
             Inl err \<Rightarrow> Inl err
           | Inr (ms, t'') \<Rightarrow> Inr (m @ ms, t'')))"

record SourceMap =
  version :: int
  sources :: "jsval list"
  sourcesContentOpt :: "jsval list option"
  mappings :: string

record SourceAndMap =
  sourceText :: string
  sourceMap :: SourceMap

text \<open>\<open>toStringWithSourceMap\<close>; the \<open>file\<close> entry, a copy of the option, is left out.
  \<open>sourcesContent\<close> is \<open>undefined\<close> (here \<open>None\<close>) unless \<open>hasSourceContent\<close>.\<close>

definition toStringWithSourceMap :: "node list \<Rightarrow> error + SourceAndMap" where
  "toStringWithSourceMap children =
     (let s = concat (map getGeneratedCode children) in
      case mapGetMappings children new_MappingsContext of
        Inl err \<Rightarrow> Inl err
      | Inr (n, t) \<Rightarrow>
          (let i = getArrays t
           in Inr \<lparr>sourceText = s,
                   sourceMap = \<lparr>version = 3, sources = fst i,
                                sourcesContentOpt = (if hasSourceContent t then Some (snd i) else None),
                                mappings = n\<rparr>\<rparr>))"

section \<open>The replace engine (module \<open>ReplaceSource\<close>), string path\<close>

text \<open>Positions are JavaScript numbers; the model takes them as integers, on which
  \<open>Math.floor\<close> is the identity.\<close>

record Replacement =
  start :: int
  end' :: int
  content :: string
  insertIndex :: int
  name :: jsval

text \<open>The wrapped source enters only through its text \<open>_source.source()\<close>.\<close>

record ReplaceSource =
  innerSource :: string
  replacements :: "Replacement list"
  isSorted :: bool

definition new_ReplaceSource :: "string \<Rightarrow> ReplaceSource" where
  "new_ReplaceSource e = \<lparr>innerSource = e, replacements = [], isSorted = True\<rparr>"

definition replace :: "ReplaceSource \<Rightarrow> int \<Rightarrow> int \<Rightarrow> string \<Rightarrow> jsval \<Rightarrow> ReplaceSource" where
  "replace this e t s n =
     this\<lparr>replacements := replacements this @
             [\<lparr>start = e, end' = t, content = s,
               insertIndex = int (length (replacements this)), name = n\<rparr>],
          isSorted := False\<rparr>"

definition insert_replacement :: "ReplaceSource \<Rightarrow> int \<Rightarrow> string \<Rightarrow> jsval \<Rightarrow> ReplaceSource" where
  "insert_replacement this e t s =
     this\<lparr>replacements := replacements this @
             [\<lparr>start = e, end' = e - 1, content = t,
               insertIndex = int (length (replacements this)), name = s\<rparr>],
          isSorted := False\<rparr>"

text \<open>The comparator handed to \<open>Array.prototype.sort\<close>.\<close>

definition compareReplacements :: "Replacement \<Rightarrow> Replacement \<Rightarrow> int" where
  "compareReplacements e t =
     (let s = end' t - end' e in
      if s \<noteq> 0 then s
      else (let n = start t - start e in
            if n \<noteq> 0 then n else insertIndex t - insertIndex e))"

text \<open>\<open>Array.prototype.sort\<close> with a comparator, as a stable insertion sort: an
  element goes before the first one it does not compare greater than.\<close>

fun insertSorted :: "('a \<Rightarrow> 'a \<Rightarrow> int) \<Rightarrow> 'a \<Rightarrow> 'a list \<Rightarrow> 'a list" where
  "insertSorted cmp x [] = [x]"
| "insertSorted cmp x (y # ys) =
     (if cmp x y \<le> 0 then x # y # ys else y # insertSorted cmp x ys)"

definition Array_sort :: "('a \<Rightarrow> 'a \<Rightarrow> int) \<Rightarrow> 'a list \<Rightarrow> 'a list" where
  "Array_sort cmp xs = foldr (insertSorted cmp) xs []"

definition sortReplacements :: "ReplaceSource \<Rightarrow> ReplaceSource" where
  "sortReplacements this =
     (if isSorted this then this
      else this\<lparr>replacements := Array_sort compareReplacements (replacements this),
                isSorted := True\<rparr>)"

definition splitString :: "string \<Rightarrow> int \<Rightarrow> string \<times> string" where
  "splitString e t = (if t \<le> 0 then ([], e) else (take (nat t) e, drop (nat t) e))"

text \<open>
  One round of the \<open>forEach\<close> in \<open>_replaceString\<close>. The array \<open>t\<close> is used as a
  stack and is kept here with its last element first: \<open>t.pop()\<close> takes the head and
  \<open>t.push(n[1], e.content, i[0])\<close> leaves \<open>i[0]\<close> on top. The array is never empty
  when \<open>pop\<close> is called.
\<close>

fun replaceStep :: "string list \<Rightarrow> Replacement \<Rightarrow> string list" where
  "replaceStep [] e = []"
| "replaceStep (s # t) e =
     (let n = splitString s (end' e + 1);
          i = splitString (fst n) (start e)
      in fst i # content e # snd n # t)"

text \<open>\<open>_replaceString\<close>: the text and the receiver with its replacements sorted. The
  closing loop appends \<open>t[length-1]\<close> down to \<open>t[0]\<close>.\<close>

definition replaceString :: "ReplaceSource \<Rightarrow> string \<Rightarrow> string \<times> ReplaceSource" where
  "replaceString this e =
     (let this' = sortReplacements this;
          t = foldl replaceStep [e] (replacements this')
      in (concat t, this'))"

definition source_of :: "ReplaceSource \<Rightarrow> string \<times> ReplaceSource" where
  "source_of this = replaceString this (innerSource this)"


section \<open>The parser \<open>fromStringWithSourceMap\<close> (module 234)\<close>

text \<open>\<open>String.prototype.split\<close> with a one-character separator: the empty string
  gives one empty piece.\<close>

fun split :: "char \<Rightarrow> string \<Rightarrow> string list" where
  "split sep [] = [[]]"
| "split sep (c # cs) =
     (if c = sep then [] # split sep cs
      else (case split sep cs of
              [] \<Rightarrow> [[c]]
            | x # xs \<Rightarrow> (c # x) # xs))"

text \<open>\<open>Array.prototype.join("\n")\<close>.\<close>

fun joinLines :: "string list \<Rightarrow> string" where
  "joinLines [] = []"
| "joinLines [x] = x"
| "joinLines (x # y # ys) = x @ [NL] @ joinLines (y # ys)"

text \<open>\<open>!e.trim()\<close>: the text holds white space and line terminators only (tab, line
  feed, vertical tab, form feed, carriage return, space, no-break space among the
  code units that a \<open>char\<close> covers).\<close>

definition isWhiteSpace :: "char \<Rightarrow> bool" where
  "isWhiteSpace c = (c \<in> set [CHR 0x09, CHR 0x0A, CHR 0x0B, CHR 0x0C, CHR 0x0D, CHR 0x20, CHR 0xA0])"

definition trimIsEmpty :: "string \<Rightarrow> bool" where
  "trimIsEmpty e = list_all isWhiteSpace e"

text \<open>An array read \<open>s[r]\<close>: \<open>undefined\<close> outside the array.\<close>

definition arrayGet :: "jsval list \<Rightarrow> int \<Rightarrow> jsval" where
  "arrayGet xs r = (if 0 \<le> r \<and> r < int (length xs) then xs ! nat r else Undefined)"

text \<open>\<open>s ? s[r] : null\<close> for an array that may be missing.\<close>

definition arrayGetOrNull :: "jsval list option \<Rightarrow> int \<Rightarrow> jsval" where
  "arrayGetOrNull s r = (case s of None \<Rightarrow> Null | Some xs \<Rightarrow> arrayGet xs r)"

text \<open>
  The variables of the closure: \<open>a\<close> is \<open>currentNode\<close>, \<open>l\<close> \<open>currentLine\<close>,
  \<open>d\<close> \<open>currentSourceIdx\<close> and \<open>p\<close> \<open>currentSourceNodeLine\<close> (\<open>undefined\<close>, here
  \<open>None\<close>, until the first \<open>SourceNode\<close> is made). The node \<open>a\<close> is the last element
  of the array \<open>h\<close> and is updated in place, so the state keeps it apart:
  \<open>nodesBefore\<close> holds the elements of \<open>h\<close> in front of it.
\<close>

record parserState =
  nodesBefore :: "node list"
  currentNode :: "node option"
  currentLine :: int
  currentSourceIdx :: int
  currentSourceNodeLine :: "int option"

definition nodesOf :: "parserState \<Rightarrow> node list" where
  "nodesOf st = nodesBefore st @ (case currentNode st of None \<Rightarrow> [] | Some x \<Rightarrow> [x])"

definition pushNode :: "parserState \<Rightarrow> node \<Rightarrow> parserState" where
  "pushNode st x = st\<lparr>nodesBefore := nodesOf st, currentNode := Some x\<rparr>"

definition addCode :: "parserState \<Rightarrow> string \<Rightarrow> parserState" where
  "addCode st e =
     (case currentNode st of
        Some (CodeNode c) \<Rightarrow> st\<lparr>currentNode := Some (CodeNode (c @ e))\<rparr>
      | Some (Source n) \<Rightarrow>
          if trimIsEmpty e then
            st\<lparr>currentNode := Some (Source (addGeneratedCode n e)),
               currentSourceNodeLine := map_option (\<lambda>p. p + 1) (currentSourceNodeLine st)\<rparr>
          else pushNode st (CodeNode e)
      | _ \<Rightarrow> pushNode st (CodeNode e))"

definition addSource :: "parserState \<Rightarrow> string \<Rightarrow> jsval \<Rightarrow> jsval \<Rightarrow> int \<Rightarrow> parserState" where
  "addSource st e t s n =
     (case currentNode st of
        Some (Source x) \<Rightarrow>
          if source x = t \<and> currentSourceNodeLine st = Some n then
            st\<lparr>currentNode := Some (Source (addGeneratedCode x e)),
               currentSourceNodeLine := map_option (\<lambda>p. p + 1) (currentSourceNodeLine st)\<rparr>
          else (pushNode st (Source (new_SourceNode e t s n)))\<lparr>currentSourceNodeLine := Some (n + 1)\<rparr>
      | _ \<Rightarrow> (pushNode st (Source (new_SourceNode e t s n)))\<lparr>currentSourceNodeLine := Some (n + 1)\<rparr>)"

text \<open>
  \<open>processMapping(e, t, i)\<close>: \<open>rest\<close> is \<open>e.rest\<close>, \<open>ln\<close> the generated line
  \<open>t\<close> and \<open>i\<close> says that the line already has its mapping. The result is the new
  \<open>e.rest\<close>, the value returned (\<open>undefined\<close> counts as \<open>false\<close> in the caller's
  \<open>||\<close>) and the new state.
\<close>

definition processMapping ::
  "jsval list option \<Rightarrow> jsval list option \<Rightarrow> string \<Rightarrow> string \<Rightarrow> bool \<Rightarrow> parserState
     \<Rightarrow> error + (string \<times> bool \<times> parserState)" where
  "processMapping srcs cont rest ln i st =
     (case (if rest \<noteq> [] \<and> hd rest \<noteq> CHR '','' then base64VLQ_decode rest
            else Inr (0, rest)) of
        Inl err \<Rightarrow> Inl err
      | Inr (v0, rest1) \<Rightarrow>
          if rest1 = [] then Inr (rest1, False, st)
          else if hd rest1 = CHR '','' then Inr (tl rest1, False, st)
          else
            (case base64VLQ_decode rest1 of
               Inl err \<Rightarrow> Inl err
             | Inr (v1, rest2) \<Rightarrow>
                 (let r = v1 + currentSourceIdx st;
                      st1 = st\<lparr>currentSourceIdx := r\<rparr>
                  in case (if rest2 \<noteq> [] \<and> hd rest2 \<noteq> CHR '',''
                           then (case base64VLQ_decode rest2 of
                                   Inl err \<Rightarrow> Inl err
                                 | Inr (v2, rest3) \<Rightarrow>
                                     Inr (v2 + currentLine st1, rest3,
                                          st1\<lparr>currentLine := v2 + currentLine st1\<rparr>))
                           else Inr (currentLine st1, rest2, st1)) of
                       Inl err \<Rightarrow> Inl err
                     | Inr (u, rest3, st2) \<Rightarrow>
                         (let rest4 = dropWhile (\<lambda>c. c \<noteq> CHR '','') rest3
                          in if \<not> i then
                               Inr (rest4, True,
                                    addSource st2 ln (arrayGetOrNull srcs r) (arrayGetOrNull cont r) u)
                             else Inr (rest4, False, st2)))))"

text \<open>\<open>while (e.rest) n = processMapping(e, s, n) || n\<close>.\<close>

function mappingLoop ::
  "jsval list option \<Rightarrow> jsval list option \<Rightarrow> string \<Rightarrow> string \<Rightarrow> bool \<Rightarrow> parserState
     \<Rightarrow> error + (bool \<times> parserState)" where
  "mappingLoop srcs cont rest ln n st =
     (if rest = [] then Inr (n, st)
      else (case processMapping srcs cont rest ln n st of
              Inl err \<Rightarrow> Inl err
            | Inr (rest', r, st') \<Rightarrow> mappingLoop srcs cont rest' ln (r \<or> n) st'))"
  by pat_completeness auto
termination
proof (relation "measure (\<lambda>(srcs, cont, rest, ln, n, st). length rest)")
  show "wf (measure (\<lambda>(srcs, cont, rest, ln, n, st). length rest))" by simp
next
  fix srcs cont :: "jsval list option" and rest ln :: string and n :: bool
    and st st' :: parserState and x2 y rest' r
  assume ne: "rest \<noteq> []"
    and pm: "processMapping srcs cont rest ln n st = Inr x2"
    and x2: "(rest', y) = x2" and y: "(r, st') = y"
  have loop: "length r' < length e"
    if "base64VLQ_decode_loop e u c = Inr (v, r')" for e u c v r'
    using that
  proof (induction e arbitrary: u c)
    case Nil
    then show ?case by simp
  next
    case (Cons ch e)
    then show ?case
      by (fastforce simp add: Let_def split: sum.splits if_splits)
  qed
  have dec: "length r' < length e" if "base64VLQ_decode e = Inr (v, r')" for e v r'
    using that loop by (simp add: base64VLQ_decode_def)
  have dw: "length (dropWhile (\<lambda>c. c \<noteq> CHR '','') e) \<le> length e" for e
    by (rule length_dropWhile_le)
  have "length rest' < length rest"
  proof (cases "hd rest = CHR '',''")
    case True
    with ne pm x2 [symmetric] show ?thesis
      by (cases rest) (auto simp add: processMapping_def)
  next
    case False
    with ne pm obtain v0 rest1 where d0: "base64VLQ_decode rest = Inr (v0, rest1)"
      by (auto simp add: processMapping_def split: sum.splits)
    have l1: "length rest1 < length rest" using dec [OF d0] .
    show ?thesis
    proof (cases "rest1 = [] \<or> hd rest1 = CHR '',''")
      case True
      with ne False pm x2 [symmetric] d0 l1 show ?thesis
        by (cases rest1) (auto simp add: processMapping_def split: if_splits)
    next
      case False
      note nf = this
      with ne \<open>hd rest \<noteq> CHR '',''\<close> pm d0
      obtain v1 rest2 where d1: "base64VLQ_decode rest1 = Inr (v1, rest2)"
        by (auto simp add: processMapping_def split: sum.splits)
      have l2: "length rest2 < length rest1" using dec [OF d1] .
      show ?thesis
      proof (cases "rest2 \<noteq> [] \<and> hd rest2 \<noteq> CHR '',''")
        case True
        with ne \<open>hd rest \<noteq> CHR '',''\<close> nf pm d0 d1
        obtain v2 rest3 where d2: "base64VLQ_decode rest2 = Inr (v2, rest3)"
          by (auto simp add: processMapping_def Let_def split: sum.splits)
        have l3: "length rest3 < length rest2" using dec [OF d2] .
        have "rest' = dropWhile (\<lambda>c. c \<noteq> CHR '','') rest3"
          using ne \<open>hd rest \<noteq> CHR '',''\<close> nf True pm d0 d1 d2 x2 [symmetric]
          by (auto simp add: processMapping_def Let_def split: if_splits)
        with dw [of rest3] l1 l2 l3 show ?thesis by simp
      next
        case False
        then have "rest' = dropWhile (\<lambda>c. c \<noteq> CHR '','') rest2"
          using ne \<open>hd rest \<noteq> CHR '',''\<close> nf pm d0 d1 x2 [symmetric]
          by (auto simp add: processMapping_def Let_def split: if_splits)
        with dw [of rest2] l1 l2 show ?thesis by simp
      qed
    qed
  qed
  then show "((srcs, cont, rest', ln, r \<or> n, st'), (srcs, cont, rest, ln, n, st))
      \<in> measure (\<lambda>(srcs, cont, rest, ln, n, st). length rest)"
    by simp
qed

text \<open>The body of \<open>f.forEach(function(e, t) \<dots>)\<close>: \<open>c\<close> are the lines of the
  generated text, \<open>e\<close> the mappings of line \<open>t\<close>.\<close>

definition processLine ::
  "jsval list option \<Rightarrow> jsval list option \<Rightarrow> string list \<Rightarrow> string \<Rightarrow> nat \<Rightarrow> parserState
     \<Rightarrow> error + parserState" where
  "processLine srcs cont c e t st =
     (if length c \<le> t then Inr st
      else
        (let s = (if t \<noteq> length c - 1 then c ! t @ [NL] else c ! t)
         in if e = [] then Inr (addCode st s)
            else (case mappingLoop srcs cont e s False st of
                    Inl err \<Rightarrow> Inl err
                  | Inr (n, st') \<Rightarrow> if \<not> n then Inr (addCode st' s) else Inr st')))"

fun forEachLine ::
  "jsval list option \<Rightarrow> jsval list option \<Rightarrow> string list \<Rightarrow> string list \<Rightarrow> nat \<Rightarrow> parserState
     \<Rightarrow> error + parserState" where
  "forEachLine srcs cont c [] t st = Inr st"
| "forEachLine srcs cont c (e # es) t st =
     (case processLine srcs cont c e t st of
        Inl err \<Rightarrow> Inl err
      | Inr st' \<Rightarrow> forEachLine srcs cont c es (Suc t) st')"

text \<open>
  The lines of the text beyond the mappings, \<open>c.slice(f.length)\<close>: blank lines other
  than the last are added one by one, the remainder in one piece.
\<close>

fun trailingLines :: "string list \<Rightarrow> parserState \<Rightarrow> parserState" where
  "trailingLines [] st = st"
| "trailingLines [x] st = addCode st x"
| "trailingLines (x # y # ys) st =
     (if trimIsEmpty x then trailingLines (y # ys) (addCode st (x @ [NL]))
      else addCode st (joinLines (x # y # ys)))"

record parsedMap =
  map_sources :: "jsval list option"
  map_sourcesContent :: "jsval list option"
  map_mappings :: string

definition fromStringWithSourceMap :: "string \<Rightarrow> parsedMap \<Rightarrow> error + node list" where
  "fromStringWithSourceMap e t =
     (let f = split (CHR '';'') (map_mappings t);
          c = split NL e;
          st0 = \<lparr>nodesBefore = [], currentNode = None, currentLine = 1,
                 currentSourceIdx = 0, currentSourceNodeLine = None\<rparr>
      in case forEachLine (map_sources t) (map_sourcesContent t) c f 0 st0 of
           Inl err \<Rightarrow> Inl err
         | Inr st \<Rightarrow>
             if length f < length c then Inr (nodesOf (trailingLines (drop (length f) c) st))
             else Inr (nodesOf st))"


text \<open>
  The table of a serialized result as the repository reads it back: the parser is
  run on the text and the map, and the nodes it returns are normalized, so that each
  \<open>SingleLineNode\<close> names the source and the original line of one generated line.
\<close>

definition resolvedLines :: "SourceAndMap \<Rightarrow> error + node list" where
  "resolvedLines r =
     (case fromStringWithSourceMap (sourceText r)
             \<lparr>map_sources = Some (sources (sourceMap r)),
              map_sourcesContent = sourcesContentOpt (sourceMap r),
              map_mappings = mappings (sourceMap r)\<rparr> of
        Inl err \<Rightarrow> Inl err
      | Inr ns \<Rightarrow> Inr (concat (map getNormalizedNodes ns)))"

section \<open>Orders and tables named by the specification\<close>

text \<open>
  The order the specification gives for the replacements: \<open>end\<close> descending, then
  \<open>start\<close> descending, then \<open>insertionOrder\<close> descending. This definition follows the
  specification's words; \<open>compareReplacements\<close> is the comparator of the code.
\<close>

definition spec_sortOrder :: "Replacement \<Rightarrow> Replacement \<Rightarrow> bool" where
  "spec_sortOrder a b =
     (end' b < end' a
      \<or> (end' a = end' b
          \<and> (start b < start a
              \<or> (start a = start b \<and> insertIndex b \<le> insertIndex a))))"

text \<open>
  A zero-width insertion at the position \<open>p\<close> is a replacement with \<open>start = p\<close>
  and \<open>end = p - 1\<close>; the replacements that the order puts in front of these have a
  larger \<open>end\<close>, or the same \<open>end\<close> and a larger \<open>start\<close>.
\<close>

definition atPoint :: "int \<Rightarrow> Replacement \<Rightarrow> bool" where
  "atPoint p r = (start r = p \<and> end' r = p - 1)"

definition abovePoint :: "int \<Rightarrow> Replacement \<Rightarrow> bool" where
  "abovePoint p r = (p - 1 < end' r \<or> (end' r = p - 1 \<and> p < start r))"

text \<open>The cached \<open>_numberOfLines\<close> of a mapped node is the number of newlines of its
  text.\<close>

definition cachedLines :: "'a MappedNode_scheme \<Rightarrow> bool" where
  "cachedLines n = (numberOfLines n = getNumberOfLines (generatedCode n))"

fun nodeCachedLines :: "node \<Rightarrow> bool" where
  "nodeCachedLines (CodeNode c) = True"
| "nodeCachedLines (SingleLine n) = cachedLines n"
| "nodeCachedLines (Source n) = cachedLines n"

text \<open>
  The replacements that a run of \<open>insert\<close> calls at the position \<open>p\<close> leaves in
  the array, the first of them with the index \<open>k\<close>.
\<close>

fun insertions :: "int \<Rightarrow> nat \<Rightarrow> (string \<times> jsval) list \<Rightarrow> Replacement list" where
  "insertions p k [] = []"
| "insertions p k (c # cs) =
     \<lparr>start = p, end' = p - 1, content = fst c, insertIndex = int k, name = snd c\<rparr>
       # insertions p (Suc k) cs"

text \<open>
  The interning table in the specification's words: walking the children in order,
  a mapped fragment with generated text adds its source, with the original text it
  supplies, unless the source is in the table already.
\<close>

fun internMapped :: "(jsval \<times> jsval) list \<Rightarrow> string \<Rightarrow> jsval \<Rightarrow> jsval \<Rightarrow> (jsval \<times> jsval) list" where
  "internMapped tbl code src orig =
     (if code = [] then tbl
      else (case map_of tbl src of
              Some x \<Rightarrow> tbl
            | None \<Rightarrow> tbl @ [(src, orig)]))"

fun internSource :: "(jsval \<times> jsval) list \<Rightarrow> node \<Rightarrow> (jsval \<times> jsval) list" where
  "internSource tbl (CodeNode c) = tbl"
| "internSource tbl (SingleLine n) = internMapped tbl (generatedCode n) (source n) (originalSource n)"
| "internSource tbl (Source n) = internMapped tbl (generatedCode n) (source n) (originalSource n)"

definition internedSources :: "node list \<Rightarrow> (jsval \<times> jsval) list" where
  "internedSources children = foldl internSource [] children"

text \<open>The two maps of a context have the same keys, and \<open>hasSourceContent\<close> says
  that some stored content is a string.\<close>

definition contextInv :: "MappingsContext \<Rightarrow> bool" where
  "contextInv t =
     (map fst (sourcesIndices t) = map fst (sourcesContent t)
      \<and> hasSourceContent t = list_ex isString (map snd (sourcesContent t)))"

text \<open>
  The fields that the parser reads from one segment of a mappings line decode: the
  generated column and, when the segment goes on, the source index and the original
  line. The empty segment has no field.
\<close>

definition segmentDecodes :: "string \<Rightarrow> bool" where
  "segmentDecodes seg =
     (seg = [] \<or>
      (case base64VLQ_decode seg of
         Inl err \<Rightarrow> False
       | Inr (v0, r1) \<Rightarrow>
           r1 = [] \<or>
           (case base64VLQ_decode r1 of
              Inl err \<Rightarrow> False
            | Inr (v1, r2) \<Rightarrow>
                r2 = [] \<or>
                (case base64VLQ_decode r2 of
                   Inl err \<Rightarrow> False
                 | Inr (v2, r3) \<Rightarrow> True))))"

section \<open>Facts about the 32-bit operators\<close>

lemma VLQ_consts: "VLQ_BASE = 32" "VLQ_BASE_MASK = 31" "VLQ_CONTINUATION_BIT = 32"
  by (simp_all add: VLQ_BASE_def VLQ_BASE_MASK_def VLQ_CONTINUATION_BIT_def VLQ_BASE_SHIFT_def
      js_shl_def ToInt32_def ToUint32_def)

lemma ToInt32_id: "0 \<le> x \<Longrightarrow> x < 2 ^ 31 \<Longrightarrow> ToInt32 x = x"
  unfolding ToInt32_def by (rule signed_take_bit_int_eq_self) simp_all

lemma ToUint32_id: "0 \<le> x \<Longrightarrow> x < 2 ^ 32 \<Longrightarrow> ToUint32 x = x"
  unfolding ToUint32_def by (rule take_bit_int_eq_self)

lemma shift_count: "c < 32 \<Longrightarrow> nat (ToUint32 (int c) mod 32) = c"
proof -
  assume c: "c < 32"
  have "ToUint32 (int c) = int c"
    by (rule ToUint32_id) (use c in simp_all)
  then show ?thesis using c by simp
qed

lemma and_31_mod: "and (m::int) 31 = m mod 32"
proof -
  have "and m (mask 5) = take_bit 5 m" by (simp add: take_bit_eq_mask)
  then show ?thesis by (simp add: take_bit_eq_mod mask_eq_exp_minus_1)
qed

lemma js_and_31: assumes "0 \<le> m" "m < 2 ^ 31" shows "js_and m 31 = m mod 32"
proof -
  have "ToInt32 m = m" using assms by (rule ToInt32_id)
  moreover have "ToInt32 31 = 31" by (rule ToInt32_id) simp_all
  moreover have "ToInt32 (m mod 32) = m mod 32"
    by (rule ToInt32_id) (simp_all add: pos_mod_bound [THEN less_trans])
  ultimately show ?thesis by (simp add: js_and_def and_31_mod)
qed

lemma js_ushr_5: assumes "0 \<le> m" "m < 2 ^ 31" shows "js_ushr m 5 = m div 32"
proof -
  have "ToUint32 m = m" by (rule ToUint32_id) (use assms in simp_all)
  moreover have "nat (ToUint32 5 mod 32) = 5" using shift_count [of 5] by simp
  ultimately show ?thesis by (simp add: js_ushr_def drop_bit_eq_div)
qed

lemma js_shr_1: assumes "0 \<le> m" "m < 2 ^ 31" shows "js_shr m 1 = m div 2"
proof -
  have "ToInt32 m = m" using assms by (rule ToInt32_id)
  moreover have "nat (ToUint32 1 mod 32) = 1" using shift_count [of 1] by simp
  ultimately show ?thesis by (simp add: js_shr_def drop_bit_eq_div)
qed

lemma js_and_1: assumes "0 \<le> m" "m < 2 ^ 31" shows "js_and m 1 = m mod 2"
proof -
  have "ToInt32 m = m" using assms by (rule ToInt32_id)
  moreover have "ToInt32 1 = 1" by (rule ToInt32_id) simp_all
  moreover have "ToInt32 (m mod 2) = m mod 2"
    by (rule ToInt32_id) (simp_all add: pos_mod_bound [THEN less_trans])
  ultimately show ?thesis by (simp add: js_and_def and_one_eq)
qed

lemma js_shl_mult:
  assumes "0 \<le> a" "a * 2 ^ c < 2 ^ 31" "c < 32"
  shows "js_shl a (int c) = a * 2 ^ c"
proof -
  have "a \<le> a * 2 ^ c" using assms(1) by (simp add: mult_le_cancel_left1)
  then have "ToInt32 a = a" using assms by (intro ToInt32_id) simp_all
  moreover have "ToInt32 (a * 2 ^ c) = a * 2 ^ c"
    using assms by (intro ToInt32_id) simp_all
  ultimately show ?thesis using assms(3) by (simp add: js_shl_def shift_count push_bit_eq_mult)
qed

lemma or_32: assumes "0 \<le> s" "s < 32" shows "or (s::int) 32 = s + 32"
proof -
  have "\<not> bit s 5" using assms by (simp add: bit_iff_odd)
  then have "set_bit 5 s = s + 32" by (simp add: set_bit_eq)
  then show ?thesis by (simp add: set_bit_def)
qed

lemma js_or_32: assumes "0 \<le> s" "s < 32" shows "js_or s 32 = s + 32"
proof -
  have "ToInt32 s = s" using assms by (intro ToInt32_id) simp_all
  moreover have "ToInt32 32 = 32" by (rule ToInt32_id) simp_all
  moreover have "ToInt32 (s + 32) = s + 32" using assms by (intro ToInt32_id) simp_all
  ultimately show ?thesis using assms by (simp add: js_or_def or_32)
qed

lemma js_and_32: assumes "0 \<le> a" "a < 64" shows "js_and a 32 \<noteq> 0 \<longleftrightarrow> 32 \<le> a"
proof -
  have "ToInt32 a = a" using assms by (intro ToInt32_id) simp_all
  moreover have "ToInt32 32 = 32" by (rule ToInt32_id) simp_all
  moreover have "ToInt32 (and a 32) = and a 32"
  proof (rule ToInt32_id)
    show "0 \<le> and a 32" using assms by simp
    have "and a 32 \<le> 32" by (rule AND_upper2) simp
    then show "and a 32 < 2 ^ 31" by simp
  qed
  moreover have "and a 32 = 0 \<longleftrightarrow> \<not> bit a 5"
    using and_exp_eq_0_iff_not_bit [of a 5] by simp
  moreover have "bit a 5 \<longleftrightarrow> 32 \<le> a"
  proof -
    have "a div 32 = (if 32 \<le> a then 1 else 0)" using assms by auto
    then show ?thesis by (simp add: bit_iff_odd)
  qed
  ultimately show ?thesis by (simp add: js_and_def)
qed

section \<open>Base64 digits\<close>

lemma index_of_nth:
  "distinct xs \<Longrightarrow> k < length xs \<Longrightarrow> index_of (xs ! k) xs i = Some (i + int k)"
proof (induction xs arbitrary: k i)
  case Nil
  then show ?case by simp
next
  case (Cons x xs)
  show ?case
  proof (cases k)
    case 0
    then show ?thesis by simp
  next
    case (Suc j)
    with Cons.prems have "xs ! j \<noteq> x" "j < length xs" "distinct xs" by auto
    with Cons.IH [of j "i + 1"] Suc show ?thesis by simp
  qed
qed

lemma distinct_base64_alphabet: "distinct base64_alphabet"
  by (simp add: base64_alphabet_def)

lemma length_base64_alphabet: "length base64_alphabet = 64"
  by (simp add: base64_alphabet_def)

lemma base64_decode_encode:
  assumes "0 \<le> d" "d < 64"
  shows "base64_encode d = Inr (base64_alphabet ! nat d)"
    and "base64_decode (base64_alphabet ! nat d) = Inr d"
proof -
  show "base64_encode d = Inr (base64_alphabet ! nat d)"
    using assms by (simp add: base64_encode_def)
  have "nat d < length base64_alphabet"
    using assms by (simp add: length_base64_alphabet)
  then have "index_of (base64_alphabet ! nat d) base64_alphabet 0 = Some (0 + int (nat d))"
    by (rule index_of_nth [OF distinct_base64_alphabet])
  then show "base64_decode (base64_alphabet ! nat d) = Inr d"
    using assms by (simp add: base64_decode_def)
qed

section \<open>The VLQ round trip\<close>

declare base64VLQ_encode_loop.simps [simp del]

text \<open>
  The encoder loop on a value \<open>m\<close> writes digits that the decoder loop, started with
  the shift \<open>c\<close> and the accumulator \<open>u\<close>, reads back as \<open>u + m * 2 ^ c\<close>, as long
  as the shifted value stays below \<open>2 ^ 31\<close>.
\<close>

lemma vlq_loop_roundtrip:
  assumes "0 \<le> m" "m * 2 ^ c < 2 ^ 31" "c \<le> 30"
  shows "\<exists>ds. base64VLQ_encode_loop m t = Inr (t @ ds) \<and>
          (\<forall>rest. base64VLQ_decode_loop (ds @ rest) u (int c)
                    = Inr (fromVLQSigned (u + m * 2 ^ c), rest))"
  using assms
proof (induction m t arbitrary: c u rule: base64VLQ_encode_loop.induct)
  case (1 n t)
  have n31: "n < 2 ^ 31"
  proof -
    have "n \<le> n * 2 ^ c" using "1.prems"(1) by (simp add: mult_le_cancel_left1)
    from this "1.prems"(2) show ?thesis by (rule le_less_trans)
  qed
  define s where "s = n mod 32"
  define n' where "n' = n div 32"
  have s: "js_and n VLQ_BASE_MASK = s"
    using "1.prems"(1) n31 by (simp add: VLQ_consts js_and_31 s_def)
  have n': "js_ushr n VLQ_BASE_SHIFT = n'"
    using "1.prems"(1) n31 by (simp add: VLQ_BASE_SHIFT_def js_ushr_5 n'_def)
  have s_bounds: "0 \<le> s" "s < 32" by (simp_all add: s_def)
  have n_split: "n = s + 32 * n'" by (simp add: s_def n'_def)
  have c32: "c < 32" using "1.prems"(3) by simp
  have s_shift: "js_shl s (int c) = s * 2 ^ c"
  proof (rule js_shl_mult)
    show "0 \<le> s" by (rule s_bounds)
    have "s \<le> n" using "1.prems"(1) by (simp add: s_def zmod_le_nonneg_dividend)
    then have "s * 2 ^ c \<le> n * 2 ^ c" by (simp add: mult_right_mono)
    from this "1.prems"(2) show "s * 2 ^ c < 2 ^ 31" by (rule le_less_trans)
    show "c < 32" by (rule c32)
  qed
  show ?case
  proof (cases "0 < n'")
    case True
    define d where "d = base64_alphabet ! nat (s + 32)"
    have enc: "base64_encode (s + 32) = Inr d" and dec: "base64_decode d = Inr (s + 32)"
      using base64_decode_encode [of "s + 32"] s_bounds by (simp_all add: d_def)
    have or_s: "js_or s VLQ_CONTINUATION_BIT = s + 32"
      using s_bounds by (simp add: VLQ_consts js_or_32)
    have enc': "base64_encode (if 0 < js_ushr n VLQ_BASE_SHIFT
        then js_or (js_and n VLQ_BASE_MASK) VLQ_CONTINUATION_BIT
        else js_and n VLQ_BASE_MASK) = Inr d"
      using True enc by (simp add: s n' or_s)
    have pos: "0 < js_ushr n VLQ_BASE_SHIFT" using True by (simp add: n')
    have bound': "n' * 2 ^ (c + 5) < 2 ^ 31"
    proof -
      have "n' * 2 ^ (c + 5) = (32 * n') * 2 ^ c" by (simp add: power_add)
      also have "\<dots> \<le> n * 2 ^ c"
        using s_bounds n_split by (intro mult_right_mono) simp_all
      finally have "n' * 2 ^ (c + 5) \<le> n * 2 ^ c" .
      from this "1.prems"(2) show ?thesis by (rule le_less_trans)
    qed
    have c': "c + 5 \<le> 30"
    proof (rule ccontr)
      assume "\<not> c + 5 \<le> 30"
      then have "31 \<le> c + 5" by simp
      then have "(2::int) ^ 31 \<le> 2 ^ (c + 5)" by (intro power_increasing) simp_all
      also have "\<dots> \<le> n' * 2 ^ (c + 5)" using True by (simp add: mult_le_cancel_right1)
      finally have "(2::int) ^ 31 \<le> n' * 2 ^ (c + 5)" .
      with bound' show False by linarith
    qed
    from "1.IH" [OF refl refl refl enc' pos, of "c + 5" "u + s * 2 ^ c"] True bound' c'
    obtain ds where ds: "base64VLQ_encode_loop n' (t @ [d]) = Inr ((t @ [d]) @ ds)"
      and ds': "\<And>rest. base64VLQ_decode_loop (ds @ rest) (u + s * 2 ^ c) (int (c + 5))
            = Inr (fromVLQSigned (u + s * 2 ^ c + n' * 2 ^ (c + 5)), rest)"
      by (auto simp add: n')
    have h: "js_and (s + 32) VLQ_CONTINUATION_BIT \<noteq> 0"
      using s_bounds js_and_32 [of "s + 32"] by (simp add: VLQ_consts)
    have a': "js_and (s + 32) VLQ_BASE_MASK = s"
      using s_bounds js_and_31 [of "s + 32"] by (simp add: VLQ_consts)
    have sum: "u + s * 2 ^ c + n' * 2 ^ (c + 5) = u + n * 2 ^ c"
      by (simp add: n_split power_add algebra_simps)
    have "base64VLQ_encode_loop n t = Inr (t @ (d # ds))"
      using ds enc' pos by (subst base64VLQ_encode_loop.simps) (simp add: Let_def n')
    moreover have "base64VLQ_decode_loop ((d # ds) @ rest) u (int c)
                    = Inr (fromVLQSigned (u + n * 2 ^ c), rest)" for rest
      using ds' [of rest] h by (simp add: dec a' s_shift Let_def VLQ_BASE_SHIFT_def sum)
    ultimately show ?thesis by blast
  next
    case False
    then have n'0: "n' = 0" using "1.prems"(1) by (simp add: n'_def)
    then have sn: "s = n" using n_split by simp
    define d where "d = base64_alphabet ! nat s"
    have enc: "base64_encode s = Inr d" and dec: "base64_decode d = Inr s"
      using base64_decode_encode [of s] s_bounds by (simp_all add: d_def)
    have h: "\<not> js_and s VLQ_CONTINUATION_BIT \<noteq> 0"
      using s_bounds js_and_32 [of s] by (simp add: VLQ_consts)
    have a': "js_and s VLQ_BASE_MASK = s"
      using s_bounds js_and_31 [of s] by (simp add: VLQ_consts)
    have "base64VLQ_encode_loop n t = Inr (t @ [d])"
      using enc n'0 by (subst base64VLQ_encode_loop.simps) (simp add: Let_def s n')
    moreover have "base64VLQ_decode_loop ([d] @ rest) u (int c)
                    = Inr (fromVLQSigned (u + n * 2 ^ c), rest)" for rest
      using h by (simp add: dec a' s_shift Let_def sn [symmetric])
    ultimately show ?thesis by blast
  qed
qed

lemma toVLQSigned_nonneg: assumes "0 \<le> n" "n < 2 ^ 30" shows "toVLQSigned n = 2 * n"
  using assms js_shl_mult [of n 1] by (simp add: toVLQSigned_def)

lemma toVLQSigned_neg: assumes "n < 0" "- (2 ^ 30) < n" shows "toVLQSigned n = 2 * (- n) + 1"
  using assms js_shl_mult [of "- n" 1] by (simp add: toVLQSigned_def)

lemma fromVLQSigned_even: assumes "0 \<le> k" "k < 2 ^ 30" shows "fromVLQSigned (2 * k) = k"
  using assms js_and_1 [of "2 * k"] js_shr_1 [of "2 * k"] by (simp add: fromVLQSigned_def Let_def)

lemma fromVLQSigned_odd: assumes "0 \<le> k" "k < 2 ^ 30" shows "fromVLQSigned (2 * k + 1) = - k"
  using assms js_and_1 [of "2 * k + 1"] js_shr_1 [of "2 * k + 1"]
  by (simp add: fromVLQSigned_def Let_def)

lemma vlq_roundtrip_rest:
  assumes "- (2 ^ 30) < n" "n < 2 ^ 30"
  shows "\<exists>ds. base64VLQ_encode n = Inr ds \<and>
          (\<forall>rest. base64VLQ_decode (ds @ rest) = Inr (n, rest))"
proof (cases "0 \<le> n")
  case True
  have "toVLQSigned n = 2 * n" using True assms by (simp add: toVLQSigned_nonneg)
  moreover have "fromVLQSigned (2 * n) = n" using True assms by (simp add: fromVLQSigned_even)
  moreover have "0 \<le> 2 * n" "2 * n * 2 ^ 0 < 2 ^ 31" using True assms by simp_all
  ultimately show ?thesis
    using vlq_loop_roundtrip [of "2 * n" 0 "[]" 0]
    by (simp add: base64VLQ_encode_def base64VLQ_decode_def)
next
  case False
  have "toVLQSigned n = 2 * (- n) + 1" using False assms by (simp add: toVLQSigned_neg)
  moreover have "fromVLQSigned (2 * (- n) + 1) = n"
    using False assms fromVLQSigned_odd [of "- n"] by simp
  moreover have "0 \<le> 2 * (- n) + 1" "(2 * (- n) + 1) * 2 ^ 0 < 2 ^ 31"
    using False assms by simp_all
  ultimately show ?thesis
    using vlq_loop_roundtrip [of "2 * (- n) + 1" 0 "[]" 0]
    by (simp add: base64VLQ_encode_def base64VLQ_decode_def)
qed

text \<open>
  Claim C2. For every integer \<open>n\<close> with \<open>-2^30 < n < 2^30\<close> (zero, the negatives and
  the values that cross a 5-bit group boundary included) the encoder returns a digit
  string, and decoding that string returns \<open>n\<close> with nothing left over:
  \<open>decode(encode(n)) == n\<close>.
\<close>

theorem C2_vlq_roundtrip:
  assumes "- (2 ^ 30) < n" "n < 2 ^ 30"
  shows "\<exists>ds. base64VLQ_encode n = Inr ds \<and> base64VLQ_decode ds = Inr (n, [])"
proof -
  from vlq_roundtrip_rest [OF assms] obtain ds
    where "base64VLQ_encode n = Inr ds" "base64VLQ_decode (ds @ []) = Inr (n, [])"
    by blast
  then show ?thesis by simp
qed

theorem C2_vlq_roundtrip_witness:
  "- (2 ^ 30) < (- 17 :: int) \<and> (- 17 :: int) < 2 ^ 30 \<and>
   (\<exists>ds. base64VLQ_encode (- 17) = Inr ds \<and> base64VLQ_decode ds = Inr (- 17, []))"
  using C2_vlq_roundtrip [of "- 17"] by simp


section \<open>The order of the replacements\<close>

lemma compare_iff_spec: "(compareReplacements a b \<le> 0) = spec_sortOrder a b"
  by (auto simp add: compareReplacements_def spec_sortOrder_def Let_def)

lemma spec_sortOrder_total: "\<not> spec_sortOrder a b \<Longrightarrow> spec_sortOrder b a"
  by (auto simp add: spec_sortOrder_def)

lemma spec_sortOrder_trans: "spec_sortOrder a b \<Longrightarrow> spec_sortOrder b c \<Longrightarrow> spec_sortOrder a c"
  unfolding spec_sortOrder_def by (elim disjE conjE) simp_all

lemma set_insertSorted: "set (insertSorted cmp x ys) = {x} \<union> set ys"
  by (induction ys) auto

lemma mset_insertSorted: "mset (insertSorted cmp x ys) = add_mset x (mset ys)"
  by (induction ys) auto

lemma sorted_insertSorted:
  "sorted_wrt spec_sortOrder ys \<Longrightarrow> sorted_wrt spec_sortOrder (insertSorted compareReplacements x ys)"
proof (induction ys)
  case Nil
  then show ?case by simp
next
  case (Cons y ys)
  show ?case
  proof (cases "compareReplacements x y \<le> 0")
    case True
    then have xy: "spec_sortOrder x y" by (simp add: compare_iff_spec)
    with Cons.prems have "\<forall>z\<in>set ys. spec_sortOrder x z"
      by (auto intro: spec_sortOrder_trans)
    with True xy Cons.prems show ?thesis by simp
  next
    case False
    then have "spec_sortOrder y x" by (simp add: compare_iff_spec spec_sortOrder_total)
    with False Cons show ?thesis by (auto simp add: set_insertSorted)
  qed
qed

lemma sorted_Array_sort: "sorted_wrt spec_sortOrder (Array_sort compareReplacements xs)"
  unfolding Array_sort_def by (induction xs) (simp_all add: sorted_insertSorted)

lemma mset_Array_sort: "mset (Array_sort cmp xs) = mset xs"
  unfolding Array_sort_def by (induction xs) (simp_all add: mset_insertSorted)

lemma insertSorted_last:
  "\<forall>y\<in>set ys. 0 < cmp x y \<Longrightarrow> insertSorted cmp x ys = ys @ [x]"
  by (induction ys) auto

lemma insertions_index: "r \<in> set (insertions p k cs) \<Longrightarrow>
   start r = p \<and> end' r = p - 1 \<and> int k \<le> insertIndex r"
  by (induction cs arbitrary: k) fastforce+

lemma foldl_insert_replacement:
  "foldl (\<lambda>r c. insert_replacement r p (fst c) (snd c)) this cs =
     this\<lparr>replacements := replacements this @ insertions p (length (replacements this)) cs,
          isSorted := (if cs = [] then isSorted this else False)\<rparr>"
  by (induction cs arbitrary: this) (simp_all add: insert_replacement_def)

lemma Array_sort_insertions:
  "Array_sort compareReplacements (insertions p k cs) = rev (insertions p k cs)"
proof (induction cs arbitrary: k)
  case Nil
  then show ?case by (simp add: Array_sort_def)
next
  case (Cons c cs)
  define x where "x = \<lparr>start = p, end' = p - 1, content = fst c, insertIndex = int k, name = snd c\<rparr>"
  have "\<forall>y\<in>set (rev (insertions p (Suc k) cs)). 0 < compareReplacements x y"
    using insertions_index [of _ p "Suc k" cs]
    by (fastforce simp add: compareReplacements_def x_def Let_def)
  then have "insertSorted compareReplacements x (rev (insertions p (Suc k) cs))
      = rev (insertions p (Suc k) cs) @ [x]"
    by (rule insertSorted_last)
  with Cons.IH [of "Suc k"] show ?case
    by (simp add: Array_sort_def x_def)
qed

lemma replaceStep_insertions:
  "\<exists>h t. foldr (\<lambda>x a. replaceStep a x) (insertions p k cs) [s] = h # t
       \<and> h = (if cs = [] then s else take (nat p) s)
       \<and> concat t = concat (map fst cs) @ (if cs = [] then [] else drop (nat p) s)"
proof (induction cs arbitrary: k)
  case Nil
  then show ?case by simp
next
  case (Cons c cs)
  from Cons.IH [of "Suc k"] obtain h t
    where st: "foldr (\<lambda>x a. replaceStep a x) (insertions p (Suc k) cs) [s] = h # t"
      and h: "h = (if cs = [] then s else take (nat p) s)"
      and t: "concat t = concat (map fst cs) @ (if cs = [] then [] else drop (nat p) s)"
    by blast
  show ?case
  proof (cases "p \<le> 0")
    case True
    with st h t show ?thesis by (auto simp add: splitString_def Let_def)
  next
    case False
    with st h t show ?thesis by (auto simp add: splitString_def Let_def)
  qed
qed

lemma source_of_insertions:
  "fst (source_of (foldl (\<lambda>r c. insert_replacement r p (fst c) (snd c)) (new_ReplaceSource src) cs))
     = take (nat p) src @ concat (map fst cs) @ drop (nat p) src"
proof -
  from replaceStep_insertions [of p 0 cs src] obtain h t
    where st: "foldr (\<lambda>x a. replaceStep a x) (insertions p 0 cs) [src] = h # t"
      and h: "h = (if cs = [] then src else take (nat p) src)"
      and t: "concat t = concat (map fst cs) @ (if cs = [] then [] else drop (nat p) src)"
    by blast
  have "foldl replaceStep [src] (rev (insertions p 0 cs)) = h # t"
    using st by (simp add: foldl_conv_foldr)
  then show ?thesis
    using h t
    by (cases "cs = []")
      (simp_all add: source_of_def replaceString_def sortReplacements_def
        foldl_insert_replacement new_ReplaceSource_def Array_sort_insertions Let_def)
qed

lemma sortReplacements_sorted:
  assumes "isSorted this \<Longrightarrow> sorted_wrt spec_sortOrder (replacements this)"
  shows "sorted_wrt spec_sortOrder (replacements (sortReplacements this))"
    and "mset (replacements (sortReplacements this)) = mset (replacements this)"
    and "isSorted (sortReplacements this)"
  using assms by (simp_all add: sortReplacements_def sorted_Array_sort mset_Array_sort)

lemma splitString_eq: "splitString s t = (take (nat t) s, drop (nat t) s)"
  by (simp add: splitString_def)

lemma sorted_partition:
  "sorted_wrt spec_sortOrder L \<Longrightarrow>
   L = filter (abovePoint p) L @ filter (atPoint p) L
       @ filter (\<lambda>r. \<not> abovePoint p r \<and> \<not> atPoint p r) L"
proof (induction L)
  case Nil
  then show ?case by simp
next
  case (Cons x xs)
  then have all: "\<forall>y\<in>set xs. spec_sortOrder x y" and IH: "xs = filter (abovePoint p) xs @ filter (atPoint p) xs
       @ filter (\<lambda>r. \<not> abovePoint p r \<and> \<not> atPoint p r) xs" by simp_all
  show ?case
  proof (cases "abovePoint p x")
    case True
    then have "\<not> atPoint p x" by (auto simp add: abovePoint_def atPoint_def)
    with True IH show ?thesis by simp
  next
    case False
    have noabove: "filter (abovePoint p) xs = []"
      using all False by (auto simp add: filter_empty_conv abovePoint_def spec_sortOrder_def)
    show ?thesis
    proof (cases "atPoint p x")
      case True
      with False IH noabove show ?thesis by simp
    next
      case nat: False
      have "filter (atPoint p) xs = []"
        using all False nat
        by (auto simp add: filter_empty_conv abovePoint_def atPoint_def spec_sortOrder_def)
      with False nat IH noabove show ?thesis by simp
    qed
  qed
qed

lemma sorted_group_indices:
  "sorted_wrt spec_sortOrder L \<Longrightarrow>
   sorted (map insertIndex (rev (filter (atPoint p) L)))"
proof (induction L)
  case Nil
  then show ?case by simp
next
  case (Cons x xs)
  then have all: "\<forall>y\<in>set xs. spec_sortOrder x y"
    and IH: "sorted (map insertIndex (rev (filter (atPoint p) xs)))" by simp_all
  show ?case
  proof (cases "atPoint p x")
    case True
    have le: "\<forall>y\<in>set (filter (atPoint p) xs). insertIndex y \<le> insertIndex x"
    proof
      fix y assume y: "y \<in> set (filter (atPoint p) xs)"
      then have "spec_sortOrder x y" "atPoint p y" using all by simp_all
      with True show "insertIndex y \<le> insertIndex x"
        by (simp add: atPoint_def spec_sortOrder_def)
    qed
    have eq: "map insertIndex (rev (filter (atPoint p) (x # xs)))
        = map insertIndex (rev (filter (atPoint p) xs)) @ [insertIndex x]"
      using True by simp
    have "\<forall>b\<in>set (map insertIndex (rev (filter (atPoint p) xs))). b \<le> insertIndex x"
      using le by simp
    with IH show ?thesis unfolding eq by (simp only: sorted_append sorted1 simp_thms) simp
  next
    case False
    with IH show ?thesis by simp
  qed
qed

lemma replaceStep_group:
  assumes "\<forall>r\<in>set G. atPoint p r"
  shows "\<exists>h' m. foldl replaceStep (h # t) G = h' # m @ t
       \<and> h' = (if G = [] then h else take (nat p) h)
       \<and> concat m = concat (map content (rev G)) @ (if G = [] then [] else drop (nat p) h)"
  using assms
proof (induction G rule: rev_induct)
  case Nil
  then show ?case by simp
next
  case (snoc x G)
  then obtain h' m where st: "foldl replaceStep (h # t) G = h' # m @ t"
    and h': "h' = (if G = [] then h else take (nat p) h)"
    and m: "concat m = concat (map content (rev G)) @ (if G = [] then [] else drop (nat p) h)"
    by auto
  from snoc.prems have x: "start x = p" "end' x = p - 1" by (simp_all add: atPoint_def)
  have "foldl replaceStep (h # t) (G @ [x])
      = take (nat p) h' # (content x # drop (nat p) h' # m) @ t"
    using st x by (simp add: splitString_eq Let_def)
  moreover have "take (nat p) h' = take (nat p) h" using h' by simp
  moreover have "concat (content x # drop (nat p) h' # m)
      = concat (map content (rev (G @ [x]))) @ drop (nat p) h"
    using h' m by (cases "G = []") simp_all
  ultimately show ?case by (intro exI [of _ "take (nat p) h"] exI [of _ "content x # drop (nat p) h' # m"]) simp
qed

lemma replaceStep_nonempty:
  "st \<noteq> [] \<Longrightarrow> foldl replaceStep st xs \<noteq> []"
proof (induction xs arbitrary: st)
  case Nil
  then show ?case by simp
next
  case (Cons x xs)
  then obtain s t where "st = s # t" by (cases st) auto
  then have "replaceStep st x \<noteq> []" by (simp add: Let_def)
  with Cons.IH show ?case by simp
qed

lemma replaceStep_keeps:
  "\<exists>top X. foldl replaceStep (h # m @ t) xs = top # X @ m @ t"
proof (induction xs rule: rev_induct)
  case Nil
  show ?case by (intro exI [of _ h] exI [of _ "[]"]) simp
next
  case (snoc x xs)
  then obtain top X where "foldl replaceStep (h # m @ t) xs = top # X @ m @ t" by blast
  then have "foldl replaceStep (h # m @ t) (xs @ [x])
     = fst (splitString (fst (splitString top (end' x + 1))) (start x))
       # (content x # snd (splitString top (end' x + 1)) # X) @ m @ t"
    by (simp add: Let_def)
  then show ?case by blast
qed

lemma replaceString_contains_group:
  assumes "isSorted this \<Longrightarrow> sorted_wrt spec_sortOrder (replacements this)"
  shows "\<exists>pre post G. fst (replaceString this e) = pre @ concat (map content G) @ post
       \<and> mset G = filter_mset (atPoint p) (mset (replacements this))
       \<and> sorted (map insertIndex G)"
proof -
  define L where "L = replacements (sortReplacements this)"
  have sorted: "sorted_wrt spec_sortOrder L" and ms: "mset L = mset (replacements this)"
    using sortReplacements_sorted(1,2) [OF assms] by (simp_all add: L_def)
  define A where "A = filter (abovePoint p) L"
  define Gd where "Gd = filter (atPoint p) L"
  define B where "B = filter (\<lambda>r. \<not> abovePoint p r \<and> \<not> atPoint p r) L"
  have L: "L = A @ Gd @ B"
    unfolding A_def Gd_def B_def using sorted by (rule sorted_partition)
  from replaceStep_nonempty [of "[e]" A] obtain h t where sA: "foldl replaceStep [e] A = h # t"
    by (cases "foldl replaceStep [e] A") auto
  have "\<forall>r\<in>set Gd. atPoint p r" by (simp add: Gd_def)
  from replaceStep_group [OF this, of h t] obtain h' m
    where sG: "foldl replaceStep (h # t) Gd = h' # m @ t"
      and m: "concat m = concat (map content (rev Gd)) @ (if Gd = [] then [] else drop (nat p) h)"
    by blast
  from replaceStep_keeps [of h' m t B] obtain top X
    where sB: "foldl replaceStep (h' # m @ t) B = top # X @ m @ t" by blast
  have "foldl replaceStep [e] L = top # X @ m @ t"
    by (simp add: L sA sG sB)
  then have "fst (replaceString this e)
      = (top @ concat X) @ concat (map content (rev Gd))
        @ ((if Gd = [] then [] else drop (nat p) h) @ concat t)"
    by (simp add: replaceString_def Let_def L_def [symmetric] m)
  moreover have "mset (rev Gd) = filter_mset (atPoint p) (mset (replacements this))"
    by (simp add: Gd_def ms [symmetric])
  moreover have "sorted (map insertIndex (rev Gd))"
    unfolding Gd_def using sorted by (rule sorted_group_indices)
  ultimately show ?thesis by blast
qed

text \<open>The flag tells the truth on every object the interface builds.\<close>

lemma isSorted_truthful:
  "isSorted (new_ReplaceSource e) \<and> sorted_wrt spec_sortOrder (replacements (new_ReplaceSource e))"
  "\<not> isSorted (replace this a b c n)"
  "\<not> isSorted (insert_replacement this a c n)"
  by (simp_all add: new_ReplaceSource_def replace_def insert_replacement_def)

text \<open>
  Claim C7. On every \<open>ReplaceSource\<close> whose \<open>_isSorted\<close> flag tells the truth (as it
  does after the constructor, \<open>replace\<close>, \<open>insert\<close> and the sort itself),
  \<open>_replaceString\<close> applies the replacements in the order of (\<open>end\<close> descending,
  \<open>start\<close> descending, \<open>insertIndex\<close> descending): the array it leaves is so
  sorted, holds the same replacements, and the text is the result of the rounds over
  that array. Therefore the contents of the zero-width insertions at one position
  \<open>q\<close> (each with \<open>end = start - 1\<close>) stand in the output side by side, in the
  order of their insertion indices, whatever other replacements there are; and when
  the insertions at \<open>p\<close> are the only replacements, the output is the text up to
  \<open>p\<close>, the contents in insertion order, and the text from \<open>p\<close> on.
\<close>

theorem C7_replacement_order:
  assumes "isSorted this \<Longrightarrow> sorted_wrt spec_sortOrder (replacements this)"
  shows "sorted_wrt spec_sortOrder (replacements (snd (replaceString this e)))
    \<and> mset (replacements (snd (replaceString this e))) = mset (replacements this)
    \<and> fst (replaceString this e)
        = concat (foldl replaceStep [e] (replacements (snd (replaceString this e))))
    \<and> (\<exists>pre post G. fst (replaceString this e) = pre @ concat (map content G) @ post
          \<and> mset G = filter_mset (atPoint q) (mset (replacements this))
          \<and> sorted (map insertIndex G))
    \<and> fst (source_of (foldl (\<lambda>r c. insert_replacement r p (fst c) (snd c))
                         (new_ReplaceSource src) cs))
        = take (nat p) src @ concat (map fst cs) @ drop (nat p) src"
  using sortReplacements_sorted(1,2) [OF assms] source_of_insertions [of p src cs]
    replaceString_contains_group [OF assms, of e q]
  by (simp add: replaceString_def Let_def)

theorem C7_replacement_order_witness:
  "isSorted (snd (source_of (replace (replace (new_ReplaceSource ''abcdef'') 0 1 ''X'' Undefined)
                       4 5 ''Y'' Undefined)))
   \<and> sorted_wrt spec_sortOrder
       (replacements (snd (source_of (replace (replace (new_ReplaceSource ''abcdef'') 0 1 ''X''
                                        Undefined) 4 5 ''Y'' Undefined))))
   \<and> fst (source_of (foldl (\<lambda>r c. insert_replacement r 3 (fst c) (snd c))
                       (new_ReplaceSource ''abcdef'') [(''1'', Undefined), (''2'', Undefined)]))
       = ''abc12def''"
proof -
  define this where "this = snd (source_of (replace (replace (new_ReplaceSource ''abcdef'')
      0 1 ''X'' Undefined) 4 5 ''Y'' Undefined))"
  have flag: "isSorted this"
    by (simp add: this_def source_of_def replaceString_def sortReplacements_def replace_def
        new_ReplaceSource_def Let_def)
  have sorted: "sorted_wrt spec_sortOrder (replacements this)"
    by (simp add: this_def source_of_def replaceString_def sortReplacements_def replace_def
        new_ReplaceSource_def Array_sort_def compareReplacements_def spec_sortOrder_def Let_def)
  from C7_replacement_order [of this "''abcdef''" 0 3 "''abcdef''"
      "[(''1'', Undefined), (''2'', Undefined)]"] sorted
  have "fst (source_of (foldl (\<lambda>r c. insert_replacement r 3 (fst c) (snd c))
                       (new_ReplaceSource ''abcdef'') [(''1'', Undefined), (''2'', Undefined)]))
       = ''abc12def''"
    by simp
  with flag sorted show ?thesis by (simp only: this_def simp_thms)
qed

section \<open>Scenario: one replacement in a string\<close>

text \<open>
  Claim C1, as amended. Replacing the inclusive range \<open>[2,4]\<close> of \<open>"hello world"\<close>
  (the characters \<open>llo\<close>) by \<open>"i"\<close> gives \<open>"hei world"\<close>.
\<close>

theorem C1_replace_hello_world:
  "fst (source_of (replace (new_ReplaceSource ''hello world'') 2 4 ''i'' n)) = ''hei world''"
  by (simp add: source_of_def replaceString_def sortReplacements_def replace_def
      new_ReplaceSource_def Array_sort_def splitString_def Let_def)

text \<open>The text that claim C1 names, \<open>"held world"\<close>, is not what the code returns.\<close>

theorem C1_replace_hello_world_counterexample:
  "fst (source_of (replace (new_ReplaceSource ''hello world'') 2 4 ''i'' Undefined))
     \<noteq> ''held world''"
  by (simp add: source_of_def replaceString_def sortReplacements_def replace_def
      new_ReplaceSource_def Array_sort_def splitString_def Let_def)

section \<open>Scenario: two mapped lines\<close>

lemma encode_0: "base64VLQ_encode 0 = Inr ''A''"
  by code_simp

lemma encode_1: "base64VLQ_encode 1 = Inr ''C''"
  by code_simp

lemmas serialize_defs =
  toStringWithSourceMap_def new_SourceNode_def new_SingleLineNode_def
  SourceNode_getMappings_def SingleLineNode_getMappings_def CodeNode_getMappings_def
  new_MappingsContext_def ensureSource_def firstSegment_def truthy_def toNumber_def
  Array_join_def getArrays_def getUnfinishedLine_def lastIsNewline_def Let_def

text \<open>
  Claim C9. Two mapped fragments \<open>"const a = 1;\n"\<close> and \<open>"const b = 2;"\<close> from
  \<open>"input.js"\<close>, tagged with the original lines 1 and 2, serialize with a fresh
  context to the mappings \<open>"AAAA;AACA"\<close> and the sources \<open>["input.js"]\<close>, whichever
  of the two mapped node kinds holds each fragment and whatever original text they
  carry.
\<close>

theorem C9_two_line_scenario:
  "(\<exists>r. toStringWithSourceMap
          [Source (new_SourceNode (''const a = 1;'' @ [NL]) (Str ''input.js'') os1 1),
           Source (new_SourceNode ''const b = 2;'' (Str ''input.js'') os2 2)] = Inr r
        \<and> mappings (sourceMap r) = ''AAAA;AACA'' \<and> sources (sourceMap r) = [Str ''input.js''])
   \<and> (\<exists>r. toStringWithSourceMap
          [SingleLine (new_SingleLineNode (''const a = 1;'' @ [NL]) (Str ''input.js'') os1 1),
           SingleLine (new_SingleLineNode ''const b = 2;'' (Str ''input.js'') os2 2)] = Inr r
        \<and> mappings (sourceMap r) = ''AAAA;AACA'' \<and> sources (sourceMap r) = [Str ''input.js''])
   \<and> (\<exists>r. toStringWithSourceMap
          [Source (new_SourceNode (''const a = 1;'' @ [NL]) (Str ''input.js'') os1 1),
           SingleLine (new_SingleLineNode ''const b = 2;'' (Str ''input.js'') os2 2)] = Inr r
        \<and> mappings (sourceMap r) = ''AAAA;AACA'' \<and> sources (sourceMap r) = [Str ''input.js''])
   \<and> (\<exists>r. toStringWithSourceMap
          [SingleLine (new_SingleLineNode (''const a = 1;'' @ [NL]) (Str ''input.js'') os1 1),
           Source (new_SourceNode ''const b = 2;'' (Str ''input.js'') os2 2)] = Inr r
        \<and> mappings (sourceMap r) = ''AAAA;AACA'' \<and> sources (sourceMap r) = [Str ''input.js''])"
  by (simp add: serialize_defs encode_0 encode_1)

section \<open>Mapped fragments without text\<close>

text \<open>
  Claim C10. \<open>getMappings\<close> of a \<open>SingleLineNode\<close> or a \<open>SourceNode\<close> whose
  \<open>generatedCode\<close> is empty returns the empty string and the context it was given:
  no source is interned and \<open>currentSource\<close>, \<open>currentOriginalLine\<close> and
  \<open>unfinishedGeneratedLine\<close> keep their values.
\<close>

theorem C10_empty_fragment_frame:
  "(generatedCode n = [] \<longrightarrow> getMappings (SingleLine n) e = Inr ([], e))
   \<and> (generatedCode m = [] \<longrightarrow> getMappings (Source m) e = Inr ([], e))"
  by (simp add: SingleLineNode_getMappings_def SourceNode_getMappings_def)

theorem C10_empty_fragment_frame_witness:
  "generatedCode (new_SingleLineNode [] (Str ''a.js'') Null 3) = []
   \<and> getMappings (SingleLine (new_SingleLineNode [] (Str ''a.js'') Null 3)) new_MappingsContext
       = Inr ([], new_MappingsContext)
   \<and> generatedCode (new_SourceNode [] (Str ''a.js'') Null 3) = []
   \<and> getMappings (Source (new_SourceNode [] (Str ''a.js'') Null 3)) new_MappingsContext
       = Inr ([], new_MappingsContext)"
  using C10_empty_fragment_frame [of "new_SingleLineNode [] (Str ''a.js'') Null 3"
      new_MappingsContext "new_SourceNode [] (Str ''a.js'') Null 3"]
  by (simp add: new_SingleLineNode_def new_SourceNode_def)

section \<open>A block absorbing a line\<close>

text \<open>
  Claim C4, as amended. A \<open>SourceNode\<close> absorbs a trailing \<open>SingleLineNode\<close> if and
  only if both have the same \<open>source\<close>, the block's \<open>_endsWithNewLine\<close> flag is set,
  \<open>startingLine + _numberOfLines\<close> of the block is the \<open>line\<close> of the line node,
  and the line node's \<open>_numberOfLines\<close> is at most 1; \<open>originalSource\<close> is not
  compared. The merged node is the block with the line's text appended; every other
  combination answers not mergeable.
\<close>

theorem C4_block_absorbs_line:
  "(merge (Source b) (SingleLine l) \<noteq> None) =
     (source b = source l \<and> endsWithNewLine b
      \<and> startingLine b + numberOfLines b = line l \<and> numberOfLines l \<le> 1)
   \<and> merge (Source b) (SingleLine l) \<in>
       {None,
        Some (Source (b\<lparr>generatedCode := generatedCode b @ generatedCode l,
                        numberOfLines := numberOfLines b + numberOfLines l,
                        endsWithNewLine := endsWithNewLine l\<rparr>))}"
  by (simp add: mergeSingleLineNode_def addSingleLineNode_def)

text \<open>A block and a line of the same source whose original texts differ are merged,
  which claim C4 excludes.\<close>

theorem C4_block_absorbs_line_counterexample:
  "merge (Source (new_SourceNode (''a'' @ [NL]) (Str ''s.js'') (Str ''X'') 1))
         (SingleLine (new_SingleLineNode (''b'' @ [NL]) (Str ''s.js'') (Str ''Y'') 2)) \<noteq> None
   \<and> originalSource (new_SourceNode (''a'' @ [NL]) (Str ''s.js'') (Str ''X'') 1)
       \<noteq> originalSource (new_SingleLineNode (''b'' @ [NL]) (Str ''s.js'') (Str ''Y'') 2)"
  by (simp add: mergeSingleLineNode_def new_SourceNode_def new_SingleLineNode_def
      lastIsNewline_def)

section \<open>The cached line count and newline flag\<close>

text \<open>
  Claim C5 at the input on which the code breaks it: \<open>addGeneratedCode("")\<close> on a
  \<open>SourceNode\<close> whose text ends with a newline clears \<open>_endsWithNewLine\<close>, and so
  does a merge with a node without text; the parser reaches the first case on the
  text \<open>"x\n"\<close> with the mappings \<open>"AAAA;"\<close>.
\<close>

theorem C5_flag_after_empty_append:
  "lastIsNewline (generatedCode (addGeneratedCode (new_SourceNode (''x'' @ [NL]) (Str ''a.js'') Null 1) []))
   \<and> \<not> endsWithNewLine (addGeneratedCode (new_SourceNode (''x'' @ [NL]) (Str ''a.js'') Null 1) [])
   \<and> merge (Source (new_SourceNode (''x'' @ [NL]) (Str ''a.js'') Null 1))
            (Source (new_SourceNode [] (Str ''a.js'') Null 2))
       = Some (Source \<lparr>generatedCode = ''x'' @ [NL], source = Str ''a.js'', originalSource = Null,
                       numberOfLines = 1, endsWithNewLine = False, startingLine = 1\<rparr>)
   \<and> fromStringWithSourceMap (''x'' @ [NL])
        \<lparr>map_sources = Some [Str ''a.js''], map_sourcesContent = None, map_mappings = ''AAAA;''\<rparr>
       = Inr [Source \<lparr>generatedCode = ''x'' @ [NL], source = Str ''a.js'', originalSource = Null,
                      numberOfLines = 1, endsWithNewLine = False, startingLine = 1\<rparr>]"
  by code_simp

section \<open>The interning table and \<open>sourcesContent\<close>\<close>

lemma map_of_None_keys: "map fst xs = map fst ys \<Longrightarrow> (map_of xs k = None) = (map_of ys k = None)"
  by (metis map_of_eq_None_iff set_map)

lemma ensureSource_table:
  assumes "contextInv t" "ensureSource t src orig = (s, t')"
  shows "sourcesContent t' = internMapped (sourcesContent t) ''x'' src orig \<and> contextInv t'"
proof (cases "map_of (sourcesIndices t) src")
  case None
  moreover from None assms(1) have "map_of (sourcesContent t) src = None"
    using map_of_None_keys [of "sourcesIndices t" "sourcesContent t" src]
    by (simp add: contextInv_def)
  ultimately show ?thesis
    using assms by (auto simp add: ensureSource_def contextInv_def Let_def split: if_splits)
next
  case (Some a)
  moreover from Some assms(1) have "map_of (sourcesContent t) src \<noteq> None"
    using map_of_None_keys [of "sourcesIndices t" "sourcesContent t" src]
    by (simp add: contextInv_def)
  ultimately show ?thesis
    using assms by (auto simp add: ensureSource_def)
qed

lemma SingleLineNode_getMappings_table:
  assumes "contextInv t" "SingleLineNode_getMappings n t = Inr (m, t')"
  shows "sourcesContent t' = internSource (sourcesContent t) (SingleLine n) \<and> contextInv t'"
proof (cases "generatedCode n = []")
  case True
  with assms show ?thesis by (simp add: SingleLineNode_getMappings_def)
next
  case False
  obtain s t1 where es: "ensureSource t (source n) (originalSource n) = (s, t1)"
    by (cases "ensureSource t (source n) (originalSource n)")
  from ensureSource_table [OF assms(1) es]
  have t1: "sourcesContent t1 = internMapped (sourcesContent t) ''x'' (source n) (originalSource n)"
    and inv1: "contextInv t1" by simp_all
  from assms(2) False es
  have "sourcesContent t' = sourcesContent t1 \<and> sourcesIndices t' = sourcesIndices t1
      \<and> hasSourceContent t' = hasSourceContent t1"
    by (auto simp add: SingleLineNode_getMappings_def Let_def split: sum.splits if_splits)
  with t1 inv1 False show ?thesis by (simp add: contextInv_def)
qed

lemma SourceNode_getMappings_table:
  assumes "contextInv t" "SourceNode_getMappings n t = Inr (m, t')"
  shows "sourcesContent t' = internSource (sourcesContent t) (Source n) \<and> contextInv t'"
proof (cases "generatedCode n = []")
  case True
  with assms show ?thesis by (simp add: SourceNode_getMappings_def)
next
  case False
  obtain s t1 where es: "ensureSource t (source n) (originalSource n) = (s, t1)"
    by (cases "ensureSource t (source n) (originalSource n)")
  from ensureSource_table [OF assms(1) es]
  have t1: "sourcesContent t1 = internMapped (sourcesContent t) ''x'' (source n) (originalSource n)"
    and inv1: "contextInv t1" by simp_all
  from assms(2) False es
  have "sourcesContent t' = sourcesContent t1 \<and> sourcesIndices t' = sourcesIndices t1
      \<and> hasSourceContent t' = hasSourceContent t1"
    by (auto simp add: SourceNode_getMappings_def Let_def split: sum.splits if_splits)
  with t1 inv1 False show ?thesis by (simp add: contextInv_def)
qed

lemma CodeNode_getMappings_table:
  assumes "contextInv t" "CodeNode_getMappings c t = Inr (m, t')"
  shows "sourcesContent t' = sourcesContent t \<and> contextInv t'"
  using assms
  by (auto simp add: CodeNode_getMappings_def contextInv_def Let_def split: sum.splits if_splits)

lemma getMappings_table:
  assumes "contextInv t" "getMappings c t = Inr (m, t')"
  shows "sourcesContent t' = internSource (sourcesContent t) c \<and> contextInv t'"
proof (cases c)
  case (CodeNode x)
  with assms CodeNode_getMappings_table [of t x m t'] show ?thesis by simp
next
  case (SingleLine n)
  with assms SingleLineNode_getMappings_table [of t n m t'] show ?thesis by simp
next
  case (Source n)
  with assms SourceNode_getMappings_table [of t n m t'] show ?thesis by simp
qed

lemma mapGetMappings_table:
  "contextInv t \<Longrightarrow> mapGetMappings cs t = Inr (m, t') \<Longrightarrow>
   sourcesContent t' = foldl internSource (sourcesContent t) cs \<and> contextInv t'"
proof (induction cs arbitrary: t m)
  case Nil
  then show ?case by simp
next
  case (Cons c cs)
  from Cons.prems(2) obtain m1 t1 m2 where g: "getMappings c t = Inr (m1, t1)"
    and r: "mapGetMappings cs t1 = Inr (m2, t')"
    by (auto split: sum.splits)
  from getMappings_table [OF Cons.prems(1) g]
  have "sourcesContent t1 = internSource (sourcesContent t) c" "contextInv t1" by simp_all
  with Cons.IH [OF _ r] show ?case by simp
qed

lemma contextInv_new: "contextInv new_MappingsContext"
  by (simp add: contextInv_def new_MappingsContext_def)

text \<open>
  Claim C8, as amended. When serialization returns, \<open>sources\<close> and the contents come
  from the interning table, and \<open>sourcesContent\<close> is in the map if and only if some
  source, at the moment it was interned, came with an original text that is a
  string; the empty string counts. Otherwise \<open>sourcesContent\<close> is left out.
\<close>

theorem C8_sourcesContent_included:
  assumes "toStringWithSourceMap children = Inr r"
  shows "sources (sourceMap r) = map fst (internedSources children)
    \<and> sourcesContentOpt (sourceMap r) =
        (if list_ex isString (map snd (internedSources children))
         then Some (map snd (internedSources children)) else None)"
proof -
  from assms obtain m t where run: "mapGetMappings children new_MappingsContext = Inr (m, t)"
    and r: "r = \<lparr>sourceText = concat (map getGeneratedCode children),
                 sourceMap = \<lparr>version = 3, sources = fst (getArrays t),
                   sourcesContentOpt = (if hasSourceContent t then Some (snd (getArrays t)) else None),
                   mappings = m\<rparr>\<rparr>"
    by (auto simp add: toStringWithSourceMap_def Let_def split: sum.splits)
  from mapGetMappings_table [OF contextInv_new run]
  have "sourcesContent t = internedSources children" and "contextInv t"
    by (simp_all add: internedSources_def new_MappingsContext_def)
  then show ?thesis
    by (simp add: r getArrays_def contextInv_def)
qed

theorem C8_sourcesContent_included_witness:
  "toStringWithSourceMap [Source (new_SourceNode ''x'' (Str ''a.js'') (Str ''let x'') 1)]
     = Inr \<lparr>sourceText = ''x'',
            sourceMap = \<lparr>version = 3, sources = [Str ''a.js''],
                         sourcesContentOpt = Some [Str ''let x''], mappings = ''AAAA''\<rparr>\<rparr>
   \<and> sources (sourceMap \<lparr>sourceText = ''x'',
            sourceMap = \<lparr>version = 3, sources = [Str ''a.js''],
                         sourcesContentOpt = Some [Str ''let x''], mappings = ''AAAA''\<rparr>\<rparr>)
       = map fst (internedSources [Source (new_SourceNode ''x'' (Str ''a.js'') (Str ''let x'') 1)])"
proof -
  have run: "toStringWithSourceMap [Source (new_SourceNode ''x'' (Str ''a.js'') (Str ''let x'') 1)]
     = Inr \<lparr>sourceText = ''x'',
            sourceMap = \<lparr>version = 3, sources = [Str ''a.js''],
                         sourcesContentOpt = Some [Str ''let x''], mappings = ''AAAA''\<rparr>\<rparr>"
    by (simp add: serialize_defs encode_0)
  from C8_sourcesContent_included [OF run] run show ?thesis by blast
qed

text \<open>A source whose original text is the empty string makes \<open>sourcesContent\<close>
  appear, which claim C8 excludes.\<close>

theorem C8_sourcesContent_included_counterexample:
  "toStringWithSourceMap [Source (new_SourceNode ''x'' (Str ''a.js'') (Str []) 1)]
     = Inr \<lparr>sourceText = ''x'',
            sourceMap = \<lparr>version = 3, sources = [Str ''a.js''],
                         sourcesContentOpt = Some [Str []], mappings = ''AAAA''\<rparr>\<rparr>"
  by (simp add: serialize_defs encode_0)

section \<open>Errors of the parser\<close>

declare mappingLoop.simps [simp del]

lemma base64_decode_not_comma: "base64_decode ch = Inr a \<Longrightarrow> ch \<noteq> CHR '',''"
  by (auto simp add: base64_decode_def base64_alphabet_def split: option.splits)

lemma decode_loop_prefix:
  "base64VLQ_decode_loop e u c = Inr (v, r) \<Longrightarrow>
   \<exists>ds. e = ds @ r \<and> ds \<noteq> [] \<and> CHR '','' \<notin> set ds
        \<and> (\<forall>x. base64VLQ_decode_loop (ds @ x) u c = Inr (v, x))"
proof (induction e arbitrary: u c)
  case Nil
  then show ?case by simp
next
  case (Cons ch e)
  from Cons.prems obtain a where a: "base64_decode ch = Inr a"
    by (auto split: sum.splits)
  have nc: "ch \<noteq> CHR '',''" using a by (rule base64_decode_not_comma)
  show ?case
  proof (cases "js_and a VLQ_CONTINUATION_BIT \<noteq> 0")
    case True
    with Cons.prems a
    have "base64VLQ_decode_loop e (u + js_shl (js_and a VLQ_BASE_MASK) c) (c + VLQ_BASE_SHIFT) = Inr (v, r)"
      by (simp add: Let_def)
    from Cons.IH [OF this] obtain ds where ds: "e = ds @ r" "CHR '','' \<notin> set ds"
      "\<And>x. base64VLQ_decode_loop (ds @ x) (u + js_shl (js_and a VLQ_BASE_MASK) c) (c + VLQ_BASE_SHIFT) = Inr (v, x)"
      by blast
    have "ch # e = (ch # ds) @ r" using ds(1) by simp
    moreover have "CHR '','' \<notin> set (ch # ds)" using ds(2) nc by simp
    moreover have "base64VLQ_decode_loop ((ch # ds) @ x) u c = Inr (v, x)" for x
      using ds(3) [of x] a True by (simp add: Let_def)
    ultimately show ?thesis by blast
  next
    case False
    with Cons.prems a have "r = e" "v = fromVLQSigned (u + js_shl (js_and a VLQ_BASE_MASK) c)"
      by (simp_all add: Let_def)
    then have "ch # e = [ch] @ r" by simp
    moreover have "CHR '','' \<notin> set [ch]" using nc by simp
    moreover have "base64VLQ_decode_loop ([ch] @ x) u c = Inr (v, x)" for x
      using a False \<open>v = _\<close> by (simp add: Let_def)
    ultimately show ?thesis by blast
  qed
qed

lemma decode_prefix:
  assumes "base64VLQ_decode e = Inr (v, r)"
  obtains ds where "e = ds @ r" "ds \<noteq> []" "CHR '','' \<notin> set ds"
    "\<And>x. base64VLQ_decode (ds @ x) = Inr (v, x)"
  using decode_loop_prefix [of e 0 0 v r] assms
  unfolding base64VLQ_decode_def by blast

lemma split_not_Nil: "split sep xs \<noteq> []"
  by (induction xs) (auto split: list.splits)

lemma split_takeWhile:
  "split sep xs = takeWhile (\<lambda>c. c \<noteq> sep) xs #
     (case dropWhile (\<lambda>c. c \<noteq> sep) xs of [] \<Rightarrow> [] | y # r \<Rightarrow> split sep r)"
proof (induction xs)
  case Nil
  then show ?case by simp
next
  case (Cons x xs)
  then show ?case using split_not_Nil [of sep xs] by (auto split: list.splits)
qed


lemma split_no_sep:
  assumes "sep \<notin> set xs"
  shows "split sep (xs @ ys) = (xs @ takeWhile (\<lambda>c. c \<noteq> sep) ys) #
     (case dropWhile (\<lambda>c. c \<noteq> sep) ys of [] \<Rightarrow> [] | y # r \<Rightarrow> split sep r)"
proof -
  have tw: "takeWhile (\<lambda>c. c \<noteq> sep) (xs @ ys) = xs @ takeWhile (\<lambda>c. c \<noteq> sep) ys"
    using assms by (intro takeWhile_append2) auto
  have dw: "dropWhile (\<lambda>c. c \<noteq> sep) (xs @ ys) = dropWhile (\<lambda>c. c \<noteq> sep) ys"
    using assms by (intro dropWhile_append2) auto
  show ?thesis by (subst split_takeWhile) (simp only: tw dw)
qed

lemma split_tail_subset:
  "set (case dropWhile (\<lambda>c. c \<noteq> sep) ys of [] \<Rightarrow> [] | y # r \<Rightarrow> split sep r)
     \<subseteq> set (split sep (dropWhile (\<lambda>c. c \<noteq> sep) ys))"
proof -
  define d where "d = dropWhile (\<lambda>c. c \<noteq> sep) ys"
  have "set (case d of [] \<Rightarrow> [] | y # r \<Rightarrow> split sep r) \<subseteq> set (split sep d)"
  proof (cases d)
    case Nil
    then show ?thesis by simp
  next
    case (Cons y r)
    then have "y = sep" using hd_dropWhile [of "\<lambda>c. c \<noteq> sep" ys] by (auto simp add: d_def)
    with Cons show ?thesis by auto
  qed
  then show ?thesis by (simp only: d_def)
qed

lemma processMapping_segment:
  assumes pm: "processMapping srcs cont rest ln n st = Inr (rest', r, st')" and ne: "rest \<noteq> []"
  shows "\<exists>seg. segmentDecodes seg \<and> set (split (CHR '','') rest) \<subseteq> {seg} \<union> set (split (CHR '','') rest')"
proof (cases "hd rest = CHR '',''")
  case True
  with ne pm have "rest = CHR '','' # rest'"
    by (cases rest) (auto simp add: processMapping_def)
  then have "set (split (CHR '','') rest) \<subseteq> {[]} \<union> set (split (CHR '','') rest')" by auto
  moreover have "segmentDecodes []" by (simp add: segmentDecodes_def)
  ultimately show ?thesis by blast
next
  case False
  note h0 = this
  with ne pm obtain v0 rest1 where d0: "base64VLQ_decode rest = Inr (v0, rest1)"
    by (auto simp add: processMapping_def split: sum.splits)
  from decode_prefix [OF d0] obtain ds0 where ds0: "rest = ds0 @ rest1" "ds0 \<noteq> []"
    "CHR '','' \<notin> set ds0" "\<And>x. base64VLQ_decode (ds0 @ x) = Inr (v0, x)" by metis
  show ?thesis
  proof (cases "rest1 = [] \<or> hd rest1 = CHR '',''")
    case True
    have seg: "segmentDecodes ds0"
      using ds0(4) [of "[]"] by (simp add: segmentDecodes_def)
    show ?thesis
    proof (cases rest1)
      case Nil
      then have "split (CHR '','') rest = [ds0]"
        using split_no_sep [OF ds0(3), of "[]"] ds0(1) by simp
      with seg show ?thesis by auto
    next
      case (Cons y rs)
      with True have y: "y = CHR '',''" by simp
      with Cons ne h0 pm d0 have "rest' = rs"
        by (auto simp add: processMapping_def)
      moreover have "split (CHR '','') rest = ds0 # split (CHR '','') rs"
        using split_no_sep [OF ds0(3), of "y # rs"] ds0(1) Cons y by simp
      ultimately show ?thesis using seg by auto
    qed
  next
    case False
    note nf = this
    with ne h0 pm d0
    obtain v1 rest2 where d1: "base64VLQ_decode rest1 = Inr (v1, rest2)"
      by (auto simp add: processMapping_def split: sum.splits)
    from decode_prefix [OF d1] obtain ds1 where ds1: "rest1 = ds1 @ rest2" "ds1 \<noteq> []"
      "CHR '','' \<notin> set ds1" "\<And>x. base64VLQ_decode (ds1 @ x) = Inr (v1, x)" by metis
    show ?thesis
    proof (cases "rest2 \<noteq> [] \<and> hd rest2 \<noteq> CHR '',''")
      case True
      with ne h0 nf pm d0 d1
      obtain v2 rest3 where d2: "base64VLQ_decode rest2 = Inr (v2, rest3)"
        by (auto simp add: processMapping_def Let_def split: sum.splits)
      from decode_prefix [OF d2] obtain ds2 where ds2: "rest2 = ds2 @ rest3" "ds2 \<noteq> []"
        "CHR '','' \<notin> set ds2" "\<And>x. base64VLQ_decode (ds2 @ x) = Inr (v2, x)" by metis
      have r': "rest' = dropWhile (\<lambda>c. c \<noteq> CHR '','') rest3"
        using ne h0 nf True pm d0 d1 d2
        by (auto simp add: processMapping_def Let_def split: if_splits)
      define tw where "tw = takeWhile (\<lambda>c. c \<noteq> CHR '','') rest3"
      define seg where "seg = ds0 @ ds1 @ ds2 @ tw"
      have "segmentDecodes seg"
        using ds0(4) [of "ds1 @ ds2 @ tw"] ds1(4) [of "ds2 @ tw"] ds2(4) [of tw] ds1(2) ds2(2)
        by (simp add: segmentDecodes_def seg_def)
      moreover have "CHR '','' \<notin> set (ds0 @ ds1 @ ds2)" using ds0(3) ds1(3) ds2(3) by simp
      from split_no_sep [OF this, of rest3]
      have "split (CHR '','') rest = seg #
          (case dropWhile (\<lambda>c. c \<noteq> CHR '','') rest3 of [] \<Rightarrow> [] | y # r \<Rightarrow> split (CHR '','') r)"
        by (simp add: ds0(1) ds1(1) ds2(1) seg_def tw_def)
      ultimately show ?thesis
        using split_tail_subset [of "CHR '',''" rest3] r' by auto
    next
      case False
      then have r': "rest' = dropWhile (\<lambda>c. c \<noteq> CHR '','') rest2"
        using ne h0 nf pm d0 d1
        by (auto simp add: processMapping_def Let_def split: if_splits)
      from False have tw: "takeWhile (\<lambda>c. c \<noteq> CHR '','') rest2 = []"
        by (cases rest2) auto
      define seg where "seg = ds0 @ ds1"
      have "segmentDecodes seg"
        using ds0(4) [of ds1] ds1(4) [of "[]"] ds1(2)
        by (simp add: segmentDecodes_def seg_def)
      moreover have "CHR '','' \<notin> set (ds0 @ ds1)" using ds0(3) ds1(3) by simp
      from split_no_sep [OF this, of rest2]
      have "split (CHR '','') rest = seg #
          (case dropWhile (\<lambda>c. c \<noteq> CHR '','') rest2 of [] \<Rightarrow> [] | y # r \<Rightarrow> split (CHR '','') r)"
        by (simp add: ds0(1) ds1(1) seg_def tw)
      ultimately show ?thesis
        using split_tail_subset [of "CHR '',''" rest2] r' by auto
    qed
  qed
qed

lemma mappingLoop_segments:
  "mappingLoop srcs cont rest ln n st = Inr res \<Longrightarrow>
   list_all segmentDecodes (split (CHR '','') rest)"
proof (induction srcs cont rest ln n st rule: mappingLoop.induct)
  case (1 srcs cont rest ln n st)
  show ?case
  proof (cases "rest = []")
    case True
    then show ?thesis by (simp add: segmentDecodes_def)
  next
    case False
    with "1.prems" obtain rest' r st'
      where pm: "processMapping srcs cont rest ln n st = Inr (rest', r, st')"
        and loop: "mappingLoop srcs cont rest' ln (r \<or> n) st' = Inr res"
      by (subst (asm) mappingLoop.simps) (auto split: sum.splits)
    from "1.IH" [OF False pm refl refl loop]
    have "list_all segmentDecodes (split (CHR '','') rest')" .
    moreover from processMapping_segment [OF pm False] obtain seg
      where "segmentDecodes seg"
        "set (split (CHR '','') rest) \<subseteq> {seg} \<union> set (split (CHR '','') rest')"
      by blast
    ultimately show ?thesis by (auto simp add: list_all_iff)
  qed
qed

lemma processLine_segments:
  assumes "processLine srcs cont c e t st = Inr st'" "t < length c"
  shows "list_all segmentDecodes (split (CHR '','') e)"
proof (cases "e = []")
  case True
  then show ?thesis by (simp add: segmentDecodes_def)
next
  case False
  with assms obtain res where
    "mappingLoop srcs cont e (if t \<noteq> length c - 1 then c ! t @ [NL] else c ! t) False st = Inr res"
    by (auto simp add: processLine_def Let_def split: sum.splits)
  then show ?thesis by (rule mappingLoop_segments)
qed

lemma forEachLine_segments:
  "forEachLine srcs cont c es t st = Inr st' \<Longrightarrow> k < length es \<Longrightarrow> t + k < length c \<Longrightarrow>
   list_all segmentDecodes (split (CHR '','') (es ! k))"
proof (induction es arbitrary: t st k)
  case Nil
  then show ?case by simp
next
  case (Cons e es)
  from Cons.prems(1) obtain st1 where pl: "processLine srcs cont c e t st = Inr st1"
    and rest: "forEachLine srcs cont c es (Suc t) st1 = Inr st'"
    by (auto split: sum.splits)
  show ?case
  proof (cases k)
    case 0
    with Cons.prems(3) processLine_segments [OF pl] show ?thesis by simp
  next
    case (Suc j)
    with Cons.prems Cons.IH [OF rest, of j] show ?thesis by simp
  qed
qed

text \<open>
  Claim C6, as amended. For every generated text and parsed map: if a segment of a
  mappings line that has a generated line holds a field among those the parser reads
  (generated column, source index, original line) that fails to decode, the parser
  fails with an error. The indices are not compared with the \<open>sources\<close> array.
\<close>

theorem C6_decode_failure_fails:
  assumes "k < length (split (CHR '';'') (map_mappings t))"
    and "k < length (split NL e)"
    and "seg \<in> set (split (CHR '','') (split (CHR '';'') (map_mappings t) ! k))"
    and "\<not> segmentDecodes seg"
  shows "\<exists>err. fromStringWithSourceMap e t = Inl err"
proof (rule ccontr)
  assume "\<not> (\<exists>err. fromStringWithSourceMap e t = Inl err)"
  then obtain nodes where "fromStringWithSourceMap e t = Inr nodes"
    by (cases "fromStringWithSourceMap e t") auto
  then obtain st where
    "forEachLine (map_sources t) (map_sourcesContent t) (split NL e)
       (split (CHR '';'') (map_mappings t)) 0
       \<lparr>nodesBefore = [], currentNode = None, currentLine = 1,
         currentSourceIdx = 0, currentSourceNodeLine = None\<rparr> = Inr st"
    by (auto simp add: fromStringWithSourceMap_def Let_def split: sum.splits)
  from forEachLine_segments [OF this assms(1)] assms(2)
  have "list_all segmentDecodes (split (CHR '','') (split (CHR '';'') (map_mappings t) ! k))"
    by simp
  with assms(3,4) show False by (simp add: list_all_iff)
qed

theorem C6_decode_failure_fails_witness:
  "0 < length (split (CHR '';'') (map_mappings
         \<lparr>map_sources = Some [Str ''a.js''], map_sourcesContent = None,
          map_mappings = ''AAAA,CA!''\<rparr>))
   \<and> 0 < length (split NL ''x'')
   \<and> ''CA!'' \<in> set (split (CHR '','') (split (CHR '';'') (map_mappings
         \<lparr>map_sources = Some [Str ''a.js''], map_sourcesContent = None,
          map_mappings = ''AAAA,CA!''\<rparr>) ! 0))
   \<and> \<not> segmentDecodes ''CA!''
   \<and> (\<exists>err. fromStringWithSourceMap ''x''
         \<lparr>map_sources = Some [Str ''a.js''], map_sourcesContent = None,
          map_mappings = ''AAAA,CA!''\<rparr> = Inl err)"
proof -
  have a: "0 < length (split (CHR '';'') (map_mappings
         \<lparr>map_sources = Some [Str ''a.js''], map_sourcesContent = None,
          map_mappings = ''AAAA,CA!''\<rparr>))"
    by simp
  have b: "0 < length (split NL ''x'')" by simp
  have c: "''CA!'' \<in> set (split (CHR '','') (split (CHR '';'') (map_mappings
         \<lparr>map_sources = Some [Str ''a.js''], map_sourcesContent = None,
          map_mappings = ''AAAA,CA!''\<rparr>) ! 0))"
    by simp
  have d: "\<not> segmentDecodes ''CA!''" by code_simp
  from C6_decode_failure_fails [OF a b c d] a b c d show ?thesis by blast
qed

text \<open>A source index beyond the \<open>sources\<close> array does not make the parser fail: the
  fragment is made with the source \<open>undefined\<close>, which claim C6 excludes.\<close>

theorem C6_decode_failure_fails_counterexample:
  "fromStringWithSourceMap ''x''
     \<lparr>map_sources = Some [Str ''a.js''], map_sourcesContent = None, map_mappings = ''ACAA''\<rparr>
   = Inr [Source \<lparr>generatedCode = ''x'', source = Undefined, originalSource = Null,
                  numberOfLines = 0, endsWithNewLine = False, startingLine = 1\<rparr>]"
  by code_simp


section \<open>Merging and the mapping\<close>

lemma getNumberOfLines_append:
  "getNumberOfLines (a @ b) = getNumberOfLines a + getNumberOfLines b"
  by (induction a) simp_all

lemma getNumberOfLines_nonneg: "0 \<le> getNumberOfLines a"
  by (induction a) simp_all

lemma lastIsNewline_append: "b \<noteq> [] \<Longrightarrow> lastIsNewline (a @ b) = lastIsNewline b"
  by (simp add: lastIsNewline_def)

lemma merge_generatedCode:
  "merge a b = Some m \<Longrightarrow> getGeneratedCode m = getGeneratedCode a @ getGeneratedCode b"
  by (cases a; cases b)
    (auto simp add: SingleLineNode_mergeSingleLineNode_def mergeSourceNode_def
      mergeSingleLineNode_def addSingleLineNode_def new_SourceNode_def split: if_splits)

lemma toString_pair: "toString [a, b] = getGeneratedCode a @ getGeneratedCode b"
  by (simp add: toString_def)

text \<open>
  Claim C3 at an input on which the code breaks it. A \<open>SingleLineNode\<close> for the
  original line 1 with the text \<open>"a\n"\<close> and one for the original line 2 with the
  text \<open>"x\ny"\<close> merge into a \<open>SourceNode\<close> that starts at line 1;
  \<open>mapGeneratedCode\<close> builds the same node from the source \<open>"a\nb\n"\<close> when the
  second line is rewritten to \<open>"x\ny"\<close>. The generated text is the same either way,
  but the mappings are not: kept apart, the nodes serialize to \<open>"AAAA;AACA;AAAA"\<close>
  and the third generated line \<open>"y"\<close> reads back as original line 2; merged, they
  serialize to \<open>"AAAA;AACA;AACA"\<close> and \<open>"y"\<close> reads back as original line 3.
\<close>

theorem C3_merge_moves_original_line:
  "merge (SingleLine (new_SingleLineNode (''a'' @ [NL]) (Str ''s.js'') Null 1))
         (SingleLine (new_SingleLineNode (''x'' @ [NL] @ ''y'') (Str ''s.js'') Null 2))
     = Some (Source (new_SourceNode (''a'' @ [NL] @ ''x'' @ [NL] @ ''y'') (Str ''s.js'') Null 1))
   \<and> mapGeneratedCode [Source (new_SourceNode (''a'' @ [NL] @ ''b'' @ [NL]) (Str ''s.js'') Null 1)]
         (\<lambda>c. if c = ''b'' @ [NL] then ''x'' @ [NL] @ ''y'' else c)
       = Inr [Source (new_SourceNode (''a'' @ [NL] @ ''x'' @ [NL] @ ''y'') (Str ''s.js'') Null 1)]
   \<and> toStringWithSourceMap
         [SingleLine (new_SingleLineNode (''a'' @ [NL]) (Str ''s.js'') Null 1),
          SingleLine (new_SingleLineNode (''x'' @ [NL] @ ''y'') (Str ''s.js'') Null 2)]
       = Inr \<lparr>sourceText = ''a'' @ [NL] @ ''x'' @ [NL] @ ''y'',
              sourceMap = \<lparr>version = 3, sources = [Str ''s.js''], sourcesContentOpt = None,
                           mappings = ''AAAA;AACA;AAAA''\<rparr>\<rparr>
   \<and> toStringWithSourceMap
         [Source (new_SourceNode (''a'' @ [NL] @ ''x'' @ [NL] @ ''y'') (Str ''s.js'') Null 1)]
       = Inr \<lparr>sourceText = ''a'' @ [NL] @ ''x'' @ [NL] @ ''y'',
              sourceMap = \<lparr>version = 3, sources = [Str ''s.js''], sourcesContentOpt = None,
                           mappings = ''AAAA;AACA;AACA''\<rparr>\<rparr>
   \<and> resolvedLines \<lparr>sourceText = ''a'' @ [NL] @ ''x'' @ [NL] @ ''y'',
              sourceMap = \<lparr>version = 3, sources = [Str ''s.js''], sourcesContentOpt = None,
                           mappings = ''AAAA;AACA;AAAA''\<rparr>\<rparr>
       = Inr [SingleLine (new_SingleLineNode (''a'' @ [NL]) (Str ''s.js'') Null 1),
              SingleLine (new_SingleLineNode (''x'' @ [NL]) (Str ''s.js'') Null 2),
              SingleLine (new_SingleLineNode ''y'' (Str ''s.js'') Null 2)]
   \<and> resolvedLines \<lparr>sourceText = ''a'' @ [NL] @ ''x'' @ [NL] @ ''y'',
              sourceMap = \<lparr>version = 3, sources = [Str ''s.js''], sourcesContentOpt = None,
                           mappings = ''AAAA;AACA;AACA''\<rparr>\<rparr>
       = Inr [SingleLine (new_SingleLineNode (''a'' @ [NL]) (Str ''s.js'') Null 1),
              SingleLine (new_SingleLineNode (''x'' @ [NL]) (Str ''s.js'') Null 2),
              SingleLine (new_SingleLineNode ''y'' (Str ''s.js'') Null 3)]"
  by code_simp


section \<open>Serialization returns, and what the cached fields keep\<close>

lemma vlq_roundtrip_limit:
  "base64VLQ_encode (2 ^ 30) = Inr ''ggggggC''"
  "base64VLQ_decode ''ggggggC'' = Inr (- (2 ^ 30), [])"
  by code_simp+

lemma js_and_31_range: "0 \<le> js_and n 31 \<and> js_and n 31 < 32"
proof -
  have c: "ToInt32 31 = 31" by (rule ToInt32_id) simp_all
  have lo: "0 \<le> and (ToInt32 n) 31" by simp
  have hi: "and (ToInt32 n) 31 \<le> 31" by (rule AND_upper2) simp
  from lo hi have "ToInt32 (and (ToInt32 n) 31) = and (ToInt32 n) 31"
    by (intro ToInt32_id) simp_all
  with lo hi c show ?thesis by (simp add: js_and_def)
qed

lemma base64VLQ_encode_loop_total: "\<exists>ds. base64VLQ_encode_loop n t = Inr ds"
proof (induction n t rule: base64VLQ_encode_loop.induct)
  case (1 n t)
  define s where "s = js_and n VLQ_BASE_MASK"
  have s: "0 \<le> s" "s < 32" using js_and_31_range [of n] by (simp_all add: s_def VLQ_consts)
  show ?case
  proof (cases "0 < js_ushr n VLQ_BASE_SHIFT")
    case True
    have or_s: "js_or s VLQ_CONTINUATION_BIT = s + 32"
      using s by (simp add: VLQ_consts js_or_32)
    define d where "d = base64_alphabet ! nat (s + 32)"
    have enc: "base64_encode (s + 32) = Inr d"
      using s by (simp add: base64_encode_def d_def)
    have enc': "base64_encode (if 0 < js_ushr n VLQ_BASE_SHIFT
        then js_or (js_and n VLQ_BASE_MASK) VLQ_CONTINUATION_BIT
        else js_and n VLQ_BASE_MASK) = Inr d"
      using True enc or_s by (simp add: s_def)
    from "1.IH" [OF refl refl refl enc' True] obtain ds
      where "base64VLQ_encode_loop (js_ushr n VLQ_BASE_SHIFT) (t @ [d]) = Inr ds" by blast
    then have "base64VLQ_encode_loop n t = Inr ds"
      using enc' True by (subst base64VLQ_encode_loop.simps) (simp add: Let_def)
    then show ?thesis by blast
  next
    case False
    have "base64_encode s = Inr (base64_alphabet ! nat s)"
      using s by (simp add: base64_encode_def)
    then have "base64VLQ_encode_loop n t = Inr (t @ [base64_alphabet ! nat s])"
      using False by (subst base64VLQ_encode_loop.simps) (simp add: Let_def s_def)
    then show ?thesis by blast
  qed
qed

lemma base64VLQ_encode_total: "\<exists>ds. base64VLQ_encode n = Inr ds"
  unfolding base64VLQ_encode_def by (rule base64VLQ_encode_loop_total)

lemma firstSegment_total: "\<exists>i. firstSegment e s ln = Inr i"
proof -
  obtain a where a: "base64VLQ_encode (toNumber (unfinishedGeneratedLine e)) = Inr a"
    using base64VLQ_encode_total by blast
  obtain b where b: "base64VLQ_encode (s - currentSource e) = Inr b"
    using base64VLQ_encode_total by blast
  obtain c where c: "base64VLQ_encode (ln - currentOriginalLine e) = Inr c"
    using base64VLQ_encode_total by blast
  show ?thesis by (simp add: firstSegment_def a b c)
qed

lemma getMappings_total:
  assumes "nodeCachedLines c"
  shows "\<exists>m t'. getMappings c t = Inr (m, t')"
proof (cases c)
  case (CodeNode x)
  then show ?thesis
    using getNumberOfLines_nonneg [of x]
    by (auto simp add: CodeNode_getMappings_def Array_join_def Let_def)
next
  case (SingleLine n)
  obtain s t1 where es: "ensureSource t (source n) (originalSource n) = (s, t1)"
    by (cases "ensureSource t (source n) (originalSource n)")
  obtain i where i: "firstSegment t1 s (line n) = Inr i"
    using firstSegment_total by blast
  from assms SingleLine have "0 \<le> numberOfLines n"
    using getNumberOfLines_nonneg [of "generatedCode n"] by (simp add: cachedLines_def)
  with SingleLine es i show ?thesis
    by (auto simp add: SingleLineNode_getMappings_def Array_join_def Let_def)
next
  case (Source n)
  obtain s t1 where es: "ensureSource t (source n) (originalSource n) = (s, t1)"
    by (cases "ensureSource t (source n) (originalSource n)")
  obtain i where i: "firstSegment t1 s (startingLine n) = Inr i"
    using firstSegment_total by blast
  from assms Source have "0 \<le> numberOfLines n"
    using getNumberOfLines_nonneg [of "generatedCode n"] by (simp add: cachedLines_def)
  with Source es i show ?thesis
    by (auto simp add: SourceNode_getMappings_def Array_join_def Let_def)
qed

lemma mapGetMappings_total:
  "list_all nodeCachedLines cs \<Longrightarrow> \<exists>m t'. mapGetMappings cs t = Inr (m, t')"
proof (induction cs arbitrary: t)
  case Nil
  then show ?case by simp
next
  case (Cons c cs)
  then obtain m1 t1 where g: "getMappings c t = Inr (m1, t1)"
    using getMappings_total [of c t] by auto
  from Cons obtain m2 t2 where "mapGetMappings cs t1 = Inr (m2, t2)" by fastforce
  with g show ?case by simp
qed

lemma toStringWithSourceMap_total:
  assumes "list_all nodeCachedLines children"
  shows "\<exists>r. toStringWithSourceMap children = Inr r"
proof -
  from mapGetMappings_total [OF assms] obtain m t
    where "mapGetMappings children new_MappingsContext = Inr (m, t)" by blast
  then show ?thesis by (simp add: toStringWithSourceMap_def Let_def)
qed

lemma new_SourceNode_cached:
  "cachedLines (new_SourceNode e t s n)"
  "endsWithNewLine (new_SourceNode e t s n) = lastIsNewline (generatedCode (new_SourceNode e t s n))"
  by (simp_all add: cachedLines_def new_SourceNode_def)

lemma new_SingleLineNode_cached:
  "cachedLines (new_SingleLineNode e t s n)"
  "endsWithNewLine (new_SingleLineNode e t s n)
     = lastIsNewline (generatedCode (new_SingleLineNode e t s n))"
  by (simp_all add: cachedLines_def new_SingleLineNode_def)

lemma addGeneratedCode_cached:
  "cachedLines this \<Longrightarrow> cachedLines (addGeneratedCode this e)"
  by (simp add: cachedLines_def addGeneratedCode_def getNumberOfLines_append)

lemma addGeneratedCode_flag:
  "e \<noteq> [] \<Longrightarrow> endsWithNewLine (addGeneratedCode this e)
     = lastIsNewline (generatedCode (addGeneratedCode this e))"
  by (simp add: addGeneratedCode_def lastIsNewline_append)

lemma merge_cached:
  "merge a b = Some m \<Longrightarrow> nodeCachedLines a \<Longrightarrow> nodeCachedLines b \<Longrightarrow> nodeCachedLines m"
  by (cases a; cases b)
    (auto simp add: SingleLineNode_mergeSingleLineNode_def mergeSourceNode_def
      mergeSingleLineNode_def addSingleLineNode_def new_SourceNode_def cachedLines_def
      getNumberOfLines_append split: if_splits)


section \<open>Where merging keeps the mappings\<close>

text \<open>
  The merges that make or extend a block keep the serialized mappings, from any
  context, when the cached line counts are right, the receiver's newline flag is not
  set without a newline, and an absorbed line node has no newline before its last
  character. The input of claim C3's theorem is outside the last condition.
\<close>

lemma takeWhile_stop: "\<not> P y \<Longrightarrow> takeWhile P (xs @ y # ys) = takeWhile P xs"
  by (induction xs) simp_all

lemma getUnfinishedLine_append:
  "lastIsNewline a \<Longrightarrow> getUnfinishedLine (a @ b) = getUnfinishedLine b"
proof -
  assume "lastIsNewline a"
  then obtain a' where a: "a = a' @ [NL]"
    by (cases a rule: rev_cases) (auto simp add: lastIsNewline_def)
  have "takeWhile (\<lambda>c. c \<noteq> NL) (rev b @ NL # rev a') = takeWhile (\<lambda>c. c \<noteq> NL) (rev b)"
    by (rule takeWhile_stop) simp
  then show ?thesis by (simp add: getUnfinishedLine_def a)
qed

lemma getUnfinishedLine_newline: "lastIsNewline a \<Longrightarrow> getUnfinishedLine a = 0"
  using getUnfinishedLine_append [of a "[]"] by (simp add: getUnfinishedLine_def)

lemma getNumberOfLines_newline: "lastIsNewline a \<Longrightarrow> 1 \<le> getNumberOfLines a"
proof -
  assume "lastIsNewline a"
  then obtain a' where "a = a' @ [NL]"
    by (cases a rule: rev_cases) (auto simp add: lastIsNewline_def)
  then show ?thesis
    using getNumberOfLines_nonneg [of a'] by (simp add: getNumberOfLines_append)
qed

lemma ensureSource_interned:
  assumes "ensureSource t src orig = (s, t1)"
  shows "map_of (sourcesIndices t1) src = Some s"
proof (cases "map_of (sourcesIndices t) src")
  case None
  with assms show ?thesis by (auto simp add: ensureSource_def Let_def map_add_def)
next
  case (Some a)
  with assms show ?thesis by (auto simp add: ensureSource_def)
qed

lemma ensureSource_again:
  assumes "ensureSource t src orig = (s, t1)"
  shows "ensureSource (t1\<lparr>currentSource := cs, currentOriginalLine := cl,
                          unfinishedGeneratedLine := u\<rparr>) src orig'
         = (s, t1\<lparr>currentSource := cs, currentOriginalLine := cl, unfinishedGeneratedLine := u\<rparr>)"
  using ensureSource_interned [OF assms] by (simp add: ensureSource_def)

lemma ensureSource_fields:
  assumes "ensureSource t src orig = (s, t1)"
  shows "currentSource t1 = currentSource t" "currentOriginalLine t1 = currentOriginalLine t"
    "unfinishedGeneratedLine t1 = unfinishedGeneratedLine t"
  using assms by (auto simp add: ensureSource_def Let_def split: option.splits)

lemma firstSegment_next_line:
  "firstSegment (t\<lparr>currentSource := s, currentOriginalLine := l, unfinishedGeneratedLine := Some 0\<rparr>)
     s (l + 1) = Inr ''AACA''"
  by (simp add: firstSegment_def truthy_def encode_0 encode_1)

text \<open>The result of each \<open>getMappings\<close> on a node with text, in one expression.\<close>

lemma SourceNode_getMappings_eq:
  assumes "generatedCode n \<noteq> []" "0 \<le> numberOfLines n"
    and "ensureSource t (source n) (originalSource n) = (s, t1)"
    and "firstSegment t1 s (startingLine n) = Inr i"
  shows "SourceNode_getMappings n t =
     Inr (i @ concat (replicate (nat (numberOfLines n) - 1) '';AACA'')
            @ (if getUnfinishedLine (generatedCode n) = 0 then '';''
               else if numberOfLines n \<noteq> 0 then '';AACA'' else []),
          t1\<lparr>currentSource := s,
             currentOriginalLine := startingLine n + numberOfLines n - 1
                + (if getUnfinishedLine (generatedCode n) = 0 then 0 else 1),
             unfinishedGeneratedLine := Some (getUnfinishedLine (generatedCode n))\<rparr>)"
  using assms by (simp add: SourceNode_getMappings_def Array_join_def Let_def)

lemma SingleLineNode_getMappings_eq:
  assumes "generatedCode n \<noteq> []" "0 \<le> numberOfLines n"
    and "ensureSource t (source n) (originalSource n) = (s, t1)"
    and "firstSegment t1 s (line n) = Inr i"
  shows "SingleLineNode_getMappings n t =
     Inr (i @ concat (replicate (nat (numberOfLines n) - 1) '';AAAA'')
            @ (if getUnfinishedLine (generatedCode n) = 0 then '';''
               else if numberOfLines n \<noteq> 0 then '';AAAA'' else []),
          t1\<lparr>currentSource := s, currentOriginalLine := line n,
             unfinishedGeneratedLine := Some (getUnfinishedLine (generatedCode n))\<rparr>)"
  using assms by (simp add: SingleLineNode_getMappings_def Array_join_def Let_def)

lemma concat_replicate_mid:
  "concat (replicate m x) @ x @ concat (replicate n x) = concat (replicate (Suc (m + n)) x)"
  by (induction m) simp_all

lemma replicate_join:
  assumes "1 \<le> a" "1 \<le> b"
  shows "concat (replicate (nat a - 1) x) @ x @ concat (replicate (nat b - 1) x)
     = concat (replicate (nat (a + b) - 1) x)"
proof -
  have "nat (a + b) - 1 = Suc ((nat a - 1) + (nat b - 1))" using assms by simp
  then show ?thesis by (simp only: concat_replicate_mid)
qed

lemma replicate_join0:
  assumes "1 \<le> a"
  shows "concat (replicate (nat a - 1) x) @ x = concat (replicate (nat a) x)"
proof -
  have "nat a = Suc ((nat a - 1) + 0)" using assms by simp
  moreover have "concat (replicate (nat a - 1) x) @ x @ concat (replicate 0 x)
      = concat (replicate (Suc ((nat a - 1) + 0)) x)"
    by (rule concat_replicate_mid)
  ultimately show ?thesis by simp
qed

lemma getUnfinishedLine_zero:
  assumes "getUnfinishedLine c = 0" "c \<noteq> []"
  shows "lastIsNewline c"
proof -
  from assms(2) obtain c' x where c: "c = c' @ [x]" by (cases c rule: rev_cases) auto
  with assms(1) show ?thesis
    by (auto simp add: getUnfinishedLine_def lastIsNewline_def split: if_splits)
qed

lemma no_newline_unfinished:
  assumes "getNumberOfLines c = 0" "c \<noteq> []"
  shows "getUnfinishedLine c \<noteq> 0"
proof
  assume "getUnfinishedLine c = 0"
  from getUnfinishedLine_zero [OF this assms(2)] have "1 \<le> getNumberOfLines c"
    by (rule getNumberOfLines_newline)
  with assms(1) show False by simp
qed

lemma mergeSourceNode_transparent:
  assumes mg: "mergeSourceNode a b = Some m"
    and ca: "cachedLines a" and cb: "cachedLines b"
    and fa: "endsWithNewLine a \<Longrightarrow> lastIsNewline (generatedCode a)"
  shows "mapGetMappings [Source a, Source b] t = mapGetMappings [Source m] t"
proof -
  from mg have src: "source a = source b" and flag: "endsWithNewLine a"
    and lines: "startingLine a + numberOfLines a = startingLine b"
    and m: "m = a\<lparr>generatedCode := generatedCode a @ generatedCode b,
                   numberOfLines := numberOfLines a + numberOfLines b,
                   endsWithNewLine := endsWithNewLine b\<rparr>"
    by (auto simp add: mergeSourceNode_def split: if_splits)
  have nl: "lastIsNewline (generatedCode a)" using fa flag by simp
  have a_ne: "generatedCode a \<noteq> []" using nl by (simp add: lastIsNewline_def)
  have ta: "1 \<le> numberOfLines a"
    using getNumberOfLines_newline [OF nl] ca by (simp add: cachedLines_def)
  have ua: "getUnfinishedLine (generatedCode a) = 0" using nl by (rule getUnfinishedLine_newline)
  have tb: "0 \<le> numberOfLines b"
    using getNumberOfLines_nonneg [of "generatedCode b"] cb by (simp add: cachedLines_def)
  obtain s t1 where es: "ensureSource t (source a) (originalSource a) = (s, t1)"
    by (cases "ensureSource t (source a) (originalSource a)")
  obtain i where i: "firstSegment t1 s (startingLine a) = Inr i"
    using firstSegment_total by blast
  define t2 where "t2 = t1\<lparr>currentSource := s,
      currentOriginalLine := startingLine a + numberOfLines a - 1,
      unfinishedGeneratedLine := Some 0\<rparr>"
  have A: "SourceNode_getMappings a t
      = Inr (i @ concat (replicate (nat (numberOfLines a) - 1) '';AACA'') @ '';'', t2)"
    using SourceNode_getMappings_eq [OF a_ne _ es i] ta ua by (simp add: t2_def)
  have m_ne: "generatedCode m \<noteq> []" using a_ne by (simp add: m)
  have m_lines: "0 \<le> numberOfLines m" using ta tb by (simp add: m)
  have m_es: "ensureSource t (source m) (originalSource m) = (s, t1)" using es by (simp add: m)
  have m_fs: "firstSegment t1 s (startingLine m) = Inr i" using i by (simp add: m)
  note M0 = SourceNode_getMappings_eq [OF m_ne m_lines m_es m_fs]
  show ?thesis
  proof (cases "generatedCode b = []")
    case True
    then have "numberOfLines b = 0" using cb by (simp add: cachedLines_def)
    with True have "SourceNode_getMappings m t
        = Inr (i @ concat (replicate (nat (numberOfLines a) - 1) '';AACA'') @ '';'', t2)"
      using M0 ta ua by (simp add: m t2_def)
    moreover have "SourceNode_getMappings b t2 = Inr ([], t2)"
      using True by (simp add: SourceNode_getMappings_def)
    ultimately show ?thesis by (simp add: A)
  next
    case False
    have es2: "ensureSource t2 (source b) (originalSource b) = (s, t2)"
      unfolding t2_def src [symmetric] using es by (rule ensureSource_again)
    have fs2: "firstSegment t2 s (startingLine b) = Inr ''AACA''"
      using firstSegment_next_line [where t = t1 and s = s
          and l = "startingLine a + numberOfLines a - 1"] lines
      by (simp add: t2_def)
    have B: "SourceNode_getMappings b t2 =
       Inr (''AACA'' @ concat (replicate (nat (numberOfLines b) - 1) '';AACA'')
            @ (if getUnfinishedLine (generatedCode b) = 0 then '';''
               else if numberOfLines b \<noteq> 0 then '';AACA'' else []),
          t2\<lparr>currentSource := s,
             currentOriginalLine := startingLine b + numberOfLines b - 1
                + (if getUnfinishedLine (generatedCode b) = 0 then 0 else 1),
             unfinishedGeneratedLine := Some (getUnfinishedLine (generatedCode b))\<rparr>)"
      by (rule SourceNode_getMappings_eq [OF False tb es2 fs2])
    have um: "getUnfinishedLine (generatedCode m) = getUnfinishedLine (generatedCode b)"
      using getUnfinishedLine_append [OF nl] by (simp add: m)
    have M: "SourceNode_getMappings m t =
       Inr (i @ concat (replicate (nat (numberOfLines a + numberOfLines b) - 1) '';AACA'')
            @ (if getUnfinishedLine (generatedCode b) = 0 then '';'' else '';AACA''),
          t1\<lparr>currentSource := s,
             currentOriginalLine := startingLine a + (numberOfLines a + numberOfLines b) - 1
                + (if getUnfinishedLine (generatedCode b) = 0 then 0 else 1),
             unfinishedGeneratedLine := Some (getUnfinishedLine (generatedCode b))\<rparr>)"
      using M0 ta tb um by (simp add: m)
    define sfx where "sfx = (if getUnfinishedLine (generatedCode b) = 0 then '';''
               else if numberOfLines b \<noteq> 0 then '';AACA'' else [])"
    define bump :: int where "bump = (if getUnfinishedLine (generatedCode b) = 0 then 0 else 1)"
    have sep: "mapGetMappings [Source a, Source b] t =
       Inr ((i @ concat (replicate (nat (numberOfLines a) - 1) '';AACA'') @ '';'')
            @ ''AACA'' @ concat (replicate (nat (numberOfLines b) - 1) '';AACA'') @ sfx,
          t2\<lparr>currentSource := s,
             currentOriginalLine := startingLine b + numberOfLines b - 1 + bump,
             unfinishedGeneratedLine := Some (getUnfinishedLine (generatedCode b))\<rparr>)"
      by (simp add: A B sfx_def bump_def)
    have mrg: "mapGetMappings [Source m] t =
       Inr (i @ concat (replicate (nat (numberOfLines a + numberOfLines b) - 1) '';AACA'')
            @ (if getUnfinishedLine (generatedCode b) = 0 then '';'' else '';AACA''),
          t1\<lparr>currentSource := s,
             currentOriginalLine := startingLine a + (numberOfLines a + numberOfLines b) - 1 + bump,
             unfinishedGeneratedLine := Some (getUnfinishedLine (generatedCode b))\<rparr>)"
      by (simp add: M bump_def)
    have ctx: "t2\<lparr>currentSource := s,
             currentOriginalLine := startingLine b + numberOfLines b - 1 + bump,
             unfinishedGeneratedLine := Some (getUnfinishedLine (generatedCode b))\<rparr>
        = t1\<lparr>currentSource := s,
             currentOriginalLine := startingLine a + (numberOfLines a + numberOfLines b) - 1 + bump,
             unfinishedGeneratedLine := Some (getUnfinishedLine (generatedCode b))\<rparr>"
      using lines by (simp add: t2_def algebra_simps)
    have str: "concat (replicate (nat (numberOfLines a) - 1) '';AACA'') @ '';''
            @ ''AACA'' @ concat (replicate (nat (numberOfLines b) - 1) '';AACA'') @ sfx
        = concat (replicate (nat (numberOfLines a + numberOfLines b) - 1) '';AACA'')
            @ (if getUnfinishedLine (generatedCode b) = 0 then '';'' else '';AACA'')"
    proof (cases "numberOfLines b = 0")
      case True
      then have ub: "getUnfinishedLine (generatedCode b) \<noteq> 0"
        using no_newline_unfinished [OF _ False] cb by (simp add: cachedLines_def)
      with True show ?thesis by (simp add: sfx_def)
    next
      case nz: False
      with tb have tb1: "1 \<le> numberOfLines b" by simp
      have "concat (replicate (nat (numberOfLines a) - 1) '';AACA'') @ '';AACA''
            @ concat (replicate (nat (numberOfLines b) - 1) '';AACA'')
          = concat (replicate (nat (numberOfLines a + numberOfLines b) - 1) '';AACA'')"
        using ta tb1 by (rule replicate_join)
      then have "concat (replicate (nat (numberOfLines a) - 1) '';AACA'') @ '';'' @ ''AACA''
            @ concat (replicate (nat (numberOfLines b) - 1) '';AACA'') @ x
          = concat (replicate (nat (numberOfLines a + numberOfLines b) - 1) '';AACA'') @ x" for x
        by (metis append_assoc append_Cons append_Nil)
      with nz show ?thesis by (simp add: sfx_def)
    qed
    show ?thesis unfolding sep mrg ctx using str by simp
  qed
qed

lemma mergeSingleLineNode_transparent:
  assumes mg: "mergeSingleLineNode a b = Some m"
    and ca: "cachedLines a" and cb: "cachedLines b"
    and fa: "endsWithNewLine a \<Longrightarrow> lastIsNewline (generatedCode a)"
    and ends: "getUnfinishedLine (generatedCode b) = 0 \<or> numberOfLines b = 0"
  shows "mapGetMappings [Source a, SingleLine b] t = mapGetMappings [Source m] t"
proof -
  from mg have src: "source a = source b" and flag: "endsWithNewLine a"
    and lines: "startingLine a + numberOfLines a = line b" and tb1: "numberOfLines b \<le> 1"
    and m: "m = a\<lparr>generatedCode := generatedCode a @ generatedCode b,
                   numberOfLines := numberOfLines a + numberOfLines b,
                   endsWithNewLine := endsWithNewLine b\<rparr>"
    by (auto simp add: mergeSingleLineNode_def addSingleLineNode_def split: if_splits)
  have nl: "lastIsNewline (generatedCode a)" using fa flag by simp
  have a_ne: "generatedCode a \<noteq> []" using nl by (simp add: lastIsNewline_def)
  have ta: "1 \<le> numberOfLines a"
    using getNumberOfLines_newline [OF nl] ca by (simp add: cachedLines_def)
  have ua: "getUnfinishedLine (generatedCode a) = 0" using nl by (rule getUnfinishedLine_newline)
  have tb: "0 \<le> numberOfLines b"
    using getNumberOfLines_nonneg [of "generatedCode b"] cb by (simp add: cachedLines_def)
  obtain s t1 where es: "ensureSource t (source a) (originalSource a) = (s, t1)"
    by (cases "ensureSource t (source a) (originalSource a)")
  obtain i where i: "firstSegment t1 s (startingLine a) = Inr i"
    using firstSegment_total by blast
  define t2 where "t2 = t1\<lparr>currentSource := s,
      currentOriginalLine := startingLine a + numberOfLines a - 1,
      unfinishedGeneratedLine := Some 0\<rparr>"
  have A: "SourceNode_getMappings a t
      = Inr (i @ concat (replicate (nat (numberOfLines a) - 1) '';AACA'') @ '';'', t2)"
    using SourceNode_getMappings_eq [OF a_ne _ es i] ta ua by (simp add: t2_def)
  have m_ne: "generatedCode m \<noteq> []" using a_ne by (simp add: m)
  have m_lines: "0 \<le> numberOfLines m" using ta tb by (simp add: m)
  have m_es: "ensureSource t (source m) (originalSource m) = (s, t1)" using es by (simp add: m)
  have m_fs: "firstSegment t1 s (startingLine m) = Inr i" using i by (simp add: m)
  note M0 = SourceNode_getMappings_eq [OF m_ne m_lines m_es m_fs]
  show ?thesis
  proof (cases "generatedCode b = []")
    case True
    then have "numberOfLines b = 0" using cb by (simp add: cachedLines_def)
    with True have "SourceNode_getMappings m t
        = Inr (i @ concat (replicate (nat (numberOfLines a) - 1) '';AACA'') @ '';'', t2)"
      using M0 ta ua by (simp add: m t2_def)
    moreover have "SingleLineNode_getMappings b t2 = Inr ([], t2)"
      using True by (simp add: SingleLineNode_getMappings_def)
    ultimately show ?thesis by (simp add: A)
  next
    case False
    have es2: "ensureSource t2 (source b) (originalSource b) = (s, t2)"
      unfolding t2_def src [symmetric] using es by (rule ensureSource_again)
    have fs2: "firstSegment t2 s (line b) = Inr ''AACA''"
      using firstSegment_next_line [where t = t1 and s = s
          and l = "startingLine a + numberOfLines a - 1"] lines
      by (simp add: t2_def)
    note B = SingleLineNode_getMappings_eq [OF False tb es2 fs2]
    have um: "getUnfinishedLine (generatedCode m) = getUnfinishedLine (generatedCode b)"
      using getUnfinishedLine_append [OF nl] by (simp add: m)
    define bump :: int where "bump = (if getUnfinishedLine (generatedCode b) = 0 then 0 else 1)"
    have cases_b: "(getUnfinishedLine (generatedCode b) = 0 \<and> numberOfLines b = 1)
        \<or> (getUnfinishedLine (generatedCode b) \<noteq> 0 \<and> numberOfLines b = 0)"
    proof (cases "getUnfinishedLine (generatedCode b) = 0")
      case True
      from getNumberOfLines_newline [OF getUnfinishedLine_zero [OF True False]] cb tb1 True
      show ?thesis by (simp add: cachedLines_def)
    next
      case False
      with ends show ?thesis by simp
    qed
    have sep: "mapGetMappings [Source a, SingleLine b] t =
       Inr ((i @ concat (replicate (nat (numberOfLines a) - 1) '';AACA'') @ '';'')
            @ ''AACA'' @ (if getUnfinishedLine (generatedCode b) = 0 then '';'' else []),
          t2\<lparr>currentSource := s, currentOriginalLine := line b,
             unfinishedGeneratedLine := Some (getUnfinishedLine (generatedCode b))\<rparr>)"
      using cases_b by (auto simp add: A B)
    have mrg: "mapGetMappings [Source m] t =
       Inr (i @ concat (replicate (nat (numberOfLines a + numberOfLines b) - 1) '';AACA'')
            @ (if getUnfinishedLine (generatedCode b) = 0 then '';'' else '';AACA''),
          t1\<lparr>currentSource := s,
             currentOriginalLine := startingLine a + (numberOfLines a + numberOfLines b) - 1 + bump,
             unfinishedGeneratedLine := Some (getUnfinishedLine (generatedCode b))\<rparr>)"
      using M0 ta tb um by (simp add: m bump_def)
    have ctx: "t2\<lparr>currentSource := s, currentOriginalLine := line b,
             unfinishedGeneratedLine := Some (getUnfinishedLine (generatedCode b))\<rparr>
        = t1\<lparr>currentSource := s,
             currentOriginalLine := startingLine a + (numberOfLines a + numberOfLines b) - 1 + bump,
             unfinishedGeneratedLine := Some (getUnfinishedLine (generatedCode b))\<rparr>"
      using lines cases_b by (auto simp add: t2_def bump_def)
    have str: "concat (replicate (nat (numberOfLines a) - 1) '';AACA'') @ '';''
            @ ''AACA'' @ (if getUnfinishedLine (generatedCode b) = 0 then '';'' else [])
        = concat (replicate (nat (numberOfLines a + numberOfLines b) - 1) '';AACA'')
            @ (if getUnfinishedLine (generatedCode b) = 0 then '';'' else '';AACA'')"
    proof -
      have "nat (numberOfLines a + 1) - 1 = nat (numberOfLines a)" using ta by simp
      with cases_b replicate_join0 [OF ta, of "'';AACA''"] show ?thesis by auto
    qed
    show ?thesis unfolding sep mrg ctx using str by simp
  qed
qed

lemma SingleLineNode_merge_transparent:
  assumes mg: "SingleLineNode_mergeSingleLineNode a b = Some (Source m)"
    and ca: "cachedLines a" and cb: "cachedLines b"
    and fa: "endsWithNewLine a \<Longrightarrow> lastIsNewline (generatedCode a)"
    and ends: "getUnfinishedLine (generatedCode b) = 0 \<or> numberOfLines b = 0"
    and la: "line a \<noteq> 0"
  shows "mapGetMappings [SingleLine a, SingleLine b] t = mapGetMappings [Source m] t"
proof -
  from mg have src: "source a = source b" and flag: "endsWithNewLine a"
    and lines: "line a + 1 = line b" and ta: "numberOfLines a = 1" and tb1: "numberOfLines b \<le> 1"
    and m: "m = new_SourceNode (generatedCode a @ generatedCode b) (source a)
                  (originalSource a) (line a)"
    by (auto simp add: SingleLineNode_mergeSingleLineNode_def split: if_splits)
  have nl: "lastIsNewline (generatedCode a)" using fa flag by simp
  have a_ne: "generatedCode a \<noteq> []" using nl by (simp add: lastIsNewline_def)
  have ua: "getUnfinishedLine (generatedCode a) = 0" using nl by (rule getUnfinishedLine_newline)
  have tb: "0 \<le> numberOfLines b"
    using getNumberOfLines_nonneg [of "generatedCode b"] cb by (simp add: cachedLines_def)
  have m_lines': "numberOfLines m = 1 + numberOfLines b"
    using ca cb ta by (simp add: m new_SourceNode_def cachedLines_def getNumberOfLines_append)
  obtain s t1 where es: "ensureSource t (source a) (originalSource a) = (s, t1)"
    by (cases "ensureSource t (source a) (originalSource a)")
  obtain i where i: "firstSegment t1 s (line a) = Inr i"
    using firstSegment_total by blast
  define t2 where "t2 = t1\<lparr>currentSource := s, currentOriginalLine := line a,
      unfinishedGeneratedLine := Some 0\<rparr>"
  have A: "SingleLineNode_getMappings a t = Inr (i @ '';'', t2)"
    using SingleLineNode_getMappings_eq [OF a_ne _ es i] ta ua by (simp add: t2_def)
  have m_ne: "generatedCode m \<noteq> []" using a_ne by (simp add: m new_SourceNode_def)
  have m_lines: "0 \<le> numberOfLines m" using tb by (simp add: m_lines')
  have m_es: "ensureSource t (source m) (originalSource m) = (s, t1)"
    using es by (simp add: m new_SourceNode_def)
  have m_fs: "firstSegment t1 s (startingLine m) = Inr i"
    using i la by (simp add: m new_SourceNode_def)
  have m_start: "startingLine m = line a" using la by (simp add: m new_SourceNode_def)
  have m_code: "generatedCode m = generatedCode a @ generatedCode b"
    by (simp add: m new_SourceNode_def)
  note M0 = SourceNode_getMappings_eq [OF m_ne m_lines m_es m_fs]
  show ?thesis
  proof (cases "generatedCode b = []")
    case True
    then have "numberOfLines b = 0" using cb by (simp add: cachedLines_def)
    with True have "SourceNode_getMappings m t = Inr (i @ '';'', t2)"
      using M0 ua by (simp add: m_lines' m_start m_code t2_def)
    moreover have "SingleLineNode_getMappings b t2 = Inr ([], t2)"
      using True by (simp add: SingleLineNode_getMappings_def)
    ultimately show ?thesis by (simp add: A)
  next
    case False
    have es2: "ensureSource t2 (source b) (originalSource b) = (s, t2)"
      unfolding t2_def src [symmetric] using es by (rule ensureSource_again)
    have fs2: "firstSegment t2 s (line b) = Inr ''AACA''"
      using firstSegment_next_line [where t = t1 and s = s and l = "line a"] lines
      by (simp add: t2_def)
    note B = SingleLineNode_getMappings_eq [OF False tb es2 fs2]
    have um: "getUnfinishedLine (generatedCode m) = getUnfinishedLine (generatedCode b)"
      using getUnfinishedLine_append [OF nl] by (simp add: m_code)
    have cases_b: "(getUnfinishedLine (generatedCode b) = 0 \<and> numberOfLines b = 1)
        \<or> (getUnfinishedLine (generatedCode b) \<noteq> 0 \<and> numberOfLines b = 0)"
    proof (cases "getUnfinishedLine (generatedCode b) = 0")
      case True
      from getNumberOfLines_newline [OF getUnfinishedLine_zero [OF True False]] cb tb1 True
      show ?thesis by (simp add: cachedLines_def)
    next
      case False
      with ends show ?thesis by simp
    qed
    have sep: "mapGetMappings [SingleLine a, SingleLine b] t =
       Inr ((i @ '';'') @ ''AACA''
              @ (if getUnfinishedLine (generatedCode b) = 0 then '';'' else []),
          t2\<lparr>currentSource := s, currentOriginalLine := line b,
             unfinishedGeneratedLine := Some (getUnfinishedLine (generatedCode b))\<rparr>)"
      using cases_b by (auto simp add: A B)
    have mrg: "mapGetMappings [Source m] t =
       Inr (i @ '';AACA'' @ (if getUnfinishedLine (generatedCode b) = 0 then '';'' else []),
          t1\<lparr>currentSource := s, currentOriginalLine := line b,
             unfinishedGeneratedLine := Some (getUnfinishedLine (generatedCode b))\<rparr>)"
      using M0 um cases_b lines by (auto simp add: m_lines' m_start)
    show ?thesis unfolding sep mrg by (simp add: t2_def)
  qed
qed

end
